theory Spec2Isabelle
  imports Main "HOL-Library.AList"
begin

section \<open>Data model of main.go\<close>

text \<open>
  A \<open>*Client\<close> is an address into a heap of \<open>Client\<close> structs; a \<open>[]byte\<close> is a
  list of characters. The registry \<open>manager.clients\<close> of type \<open>map[*Client]bool\<close> is an
  association list from addresses to flags: Go leaves the order of \<open>range\<close> over a map
  open, so every property below is stated per connection and never mentions an order.
\<close>

type_synonym addr = nat
type_synonym bytes = string

text \<open>
  What stops the Hub goroutine: the three run-time panics its statements can raise, and
  a blocking send that no receiver ever takes (the goroutine stays parked for ever).
\<close>

datatype error = SendOnClosedChannel | CloseOfClosedChannel | InvalidPointer | HubBlocked

text \<open>
  A Go channel of byte slices: its capacity (the argument of \<open>make\<close>, 0 when absent),
  the values waiting in its buffer, the values its consumer has taken so far, and whether
  it has been closed.
\<close>

record chan =
  cap :: nat
  buf :: "bytes list"
  taken :: "bytes list"
  closed :: bool

record Message =
  Sender :: string
  Recipient :: string
  Content :: string

record Client =
  client_id :: string
  client_socket :: nat
  client_send :: chan

text \<open>
  The \<open>http.ResponseWriter\<close> of one request: the status written, if any, the lines of the
  body, and whether the connection has been taken over (hijacked).
\<close>

record response =
  status :: "nat option"
  body :: "string list"
  hijacked :: bool

text \<open>
  How \<open>Upgrade\<close> fails. The \<open>Upgrader\<close> built in \<open>wsPage\<close> sets no \<open>Error\<close> handler, so a
  refused handshake is answered by \<open>Upgrade\<close> itself with \<open>http.Error\<close> (a status and
  its text) before the error is returned; a failure after the connection was taken over
  closes it and leaves nothing to answer on.
\<close>

datatype failure = ErrorReplied nat string | ConnHijacked

datatype upgrade = UpgradeFailed failure | Upgraded nat

datatype goroutine = ReadPump addr | WritePump addr

text \<open>
  The process state: the heap of allocated clients (a pointer is an index, allocation
  appends), the registry of the one global \<open>manager\<close>, the replies written by the HTTP
  handler, the goroutines started so far and the lines printed on standard output.
\<close>

record world =
  heap :: "Client list"
  clients :: "(addr \<times> bool) list"
  replies :: "response list"
  goroutines :: "goroutine list"
  stdout :: "string list"

text \<open>
  \<open>json.Marshal\<close> belongs to the standard library: it returns the bytes and an
  error. The handlers take it as a parameter of this type.
\<close>

type_synonym marshal = "Message \<Rightarrow> bytes \<times> string option"

subsection \<open>Channels\<close>

definition make_chan :: "nat \<Rightarrow> chan" where
  "make_chan n = \<lparr>cap = n, buf = [], taken = [], closed = False\<rparr>"

text \<open>Every value the channel has accepted from its sender, in the order of the sends.\<close>

definition accepted :: "chan \<Rightarrow> bytes list" where
  "accepted ch = taken ch @ buf ch"

text \<open>
  The \<open>select\<close> with a \<open>default\<close> branch of the broadcast case: \<open>rw\<close> tells whether the
  consumer is parked in a receive on the channel at that instant. \<open>Inr None\<close> is the
  \<open>default\<close> branch (the send would block).
\<close>

definition try_send :: "bool \<Rightarrow> bytes \<Rightarrow> chan \<Rightarrow> error + chan option" where
  "try_send rw m ch =
     (if closed ch then Inl SendOnClosedChannel
      else if rw \<and> buf ch = [] then Inr (Some (ch\<lparr>taken := taken ch @ [m]\<rparr>))
      else if length (buf ch) < cap ch then Inr (Some (ch\<lparr>buf := buf ch @ [m]\<rparr>))
      else Inr None)"

text \<open>
  The plain send statement \<open>conn.send <- message\<close>: here \<open>rw\<close> tells whether the
  consumer is parked in a receive or comes to one while the sender waits. When the value
  can be neither handed over nor buffered the sender parks; a consumer that comes takes
  the oldest value and the parked one follows, and if none comes the sender stays parked.
\<close>

definition block_send :: "bool \<Rightarrow> bytes \<Rightarrow> chan \<Rightarrow> error + chan" where
  "block_send rw m ch =
     (case try_send rw m ch of
        Inl e \<Rightarrow> Inl e
      | Inr (Some ch') \<Rightarrow> Inr ch'
      | Inr None \<Rightarrow>
          (if rw then
             (case buf ch of
                [] \<Rightarrow> Inr (ch\<lparr>taken := taken ch @ [m]\<rparr>)
              | b # bs \<Rightarrow> Inr (ch\<lparr>taken := taken ch @ [b], buf := bs @ [m]\<rparr>))
           else Inl HubBlocked))"

definition chan_close :: "chan \<Rightarrow> error + chan" where
  "chan_close ch = (if closed ch then Inl CloseOfClosedChannel else Inr (ch\<lparr>closed := True\<rparr>))"

subsection \<open>The heap\<close>

definition deref :: "world \<Rightarrow> addr \<Rightarrow> Client option" where
  "deref s a = (if a < length (heap s) then Some (heap s ! a) else None)"

definition set_send :: "addr \<Rightarrow> chan \<Rightarrow> world \<Rightarrow> world" where
  "set_send a ch s = s\<lparr>heap := (heap s)[a := (heap s ! a)\<lparr>client_send := ch\<rparr>]\<rparr>"

definition registry :: "world \<Rightarrow> addr list" where
  "registry s = map fst (clients s)"

text \<open>The values accepted so far by the outbound queue of the client at an address.\<close>

definition outbox :: "world \<Rightarrow> addr \<Rightarrow> bytes list" where
  "outbox s a = accepted (client_send (heap s ! a))"

definition is_closed :: "world \<Rightarrow> addr \<Rightarrow> bool" where
  "is_closed s a = closed (client_send (heap s ! a))"

section \<open>The Hub: ClientManager.send and ClientManager.start\<close>

text \<open>
  \<open>manager.send\<close>: a blocking send to every registered client but \<open>ignore\<close>. The list is
  the sequence of keys the \<open>range\<close> yields; \<open>will c\<close> tells whether the write pump of
  \<open>c\<close> comes to receive.
\<close>

fun send_loop :: "(addr \<Rightarrow> bool) \<Rightarrow> bytes \<Rightarrow> addr \<Rightarrow> addr list \<Rightarrow> world \<Rightarrow> error + world" where
  "send_loop will message ignore [] s = Inr s"
| "send_loop will message ignore (conn # cs) s =
     (if conn \<noteq> ignore then
        (case deref s conn of
           None \<Rightarrow> Inl InvalidPointer
         | Some c \<Rightarrow>
             (case block_send (will conn) message (client_send c) of
                Inl e \<Rightarrow> Inl e
              | Inr ch \<Rightarrow> send_loop will message ignore cs (set_send conn ch s)))
      else send_loop will message ignore cs s)"

definition manager_send :: "(addr \<Rightarrow> bool) \<Rightarrow> bytes \<Rightarrow> addr \<Rightarrow> world \<Rightarrow> error + world" where
  "manager_send will message ignore s = send_loop will message ignore (registry s) s"

definition joined_message :: Message where
  "joined_message = \<lparr>Sender = [], Recipient = [], Content = ''/A new socket has connected.''\<rparr>"

definition left_message :: Message where
  "left_message = \<lparr>Sender = [], Recipient = [], Content = ''/A socket has disconnected.''\<rparr>"

text \<open>The \<open>register\<close> case of the \<open>select\<close>; the error of \<open>json.Marshal\<close> goes to \<open>_\<close>.\<close>

definition hub_register :: "marshal \<Rightarrow> (addr \<Rightarrow> bool) \<Rightarrow> addr \<Rightarrow> world \<Rightarrow> error + world" where
  "hub_register mar will conn s =
     (let s1 = s\<lparr>clients := AList.update conn True (clients s)\<rparr>;
          jsonMessage = fst (mar joined_message)
      in manager_send will jsonMessage conn s1)"

text \<open>The \<open>unregister\<close> case.\<close>

definition hub_unregister :: "marshal \<Rightarrow> (addr \<Rightarrow> bool) \<Rightarrow> addr \<Rightarrow> world \<Rightarrow> error + world" where
  "hub_unregister mar will conn s =
     (case map_of (clients s) conn of
        None \<Rightarrow> Inr s
      | Some ok \<Rightarrow>
          (case deref s conn of
             None \<Rightarrow> Inl InvalidPointer
           | Some c \<Rightarrow>
               (case chan_close (client_send c) of
                  Inl e \<Rightarrow> Inl e
                | Inr ch \<Rightarrow>
                    (let s1 = set_send conn ch s;
                         s2 = s1\<lparr>clients := AList.delete conn (clients s1)\<rparr>;
                         jsonMessage = fst (mar left_message)
                     in manager_send will jsonMessage conn s2))))"

text \<open>
  The \<open>broadcast\<close> case: the list is the sequence of keys the \<open>range\<close> yields (deleting
  the current key inside the loop does not change the keys still to come); \<open>rdy c\<close>
  tells whether the write pump of \<open>c\<close> is parked in its receive.
\<close>

fun broadcast_loop :: "(addr \<Rightarrow> bool) \<Rightarrow> bytes \<Rightarrow> addr list \<Rightarrow> world \<Rightarrow> error + world" where
  "broadcast_loop rdy message [] s = Inr s"
| "broadcast_loop rdy message (conn # cs) s =
     (case deref s conn of
        None \<Rightarrow> Inl InvalidPointer
      | Some c \<Rightarrow>
          (case try_send (rdy conn) message (client_send c) of
             Inl e \<Rightarrow> Inl e
           | Inr (Some ch) \<Rightarrow> broadcast_loop rdy message cs (set_send conn ch s)
           | Inr None \<Rightarrow>
               (case chan_close (client_send c) of
                  Inl e \<Rightarrow> Inl e
                | Inr ch \<Rightarrow>
                    (let s1 = set_send conn ch s
                     in broadcast_loop rdy message cs
                          (s1\<lparr>clients := AList.delete conn (clients s1)\<rparr>)))))"

definition hub_broadcast :: "(addr \<Rightarrow> bool) \<Rightarrow> bytes \<Rightarrow> world \<Rightarrow> error + world" where
  "hub_broadcast rdy message s = broadcast_loop rdy message (registry s) s"

section \<open>The read pump: Client.read\<close>

datatype read_result = ReadOk bytes | ReadErr

datatype pump_action = ToBroadcast bytes | ToUnregister addr | SocketClose

text \<open>
  The \<open>for\<close> loop of \<open>Client.read\<close> over the results of the successive calls of
  \<open>ReadMessage\<close>. It returns what the pump did and whether the loop was left (\<open>break\<close>);
  when the results run out the pump is parked in the next \<open>ReadMessage\<close>.
\<close>

fun read_loop :: "marshal \<Rightarrow> addr \<Rightarrow> Client \<Rightarrow> read_result list \<Rightarrow> pump_action list \<times> bool" where
  "read_loop mar p c [] = ([], False)"
| "read_loop mar p c (ReadErr # rs) = ([ToUnregister p, SocketClose], True)"
| "read_loop mar p c (ReadOk message # rs) =
     (let jsonMessage = fst (mar \<lparr>Sender = client_id c, Recipient = [], Content = message\<rparr>);
          r = read_loop mar p c rs
      in (ToBroadcast jsonMessage # fst r, snd r))"


section \<open>Admission: wsPage, and the process as a whole\<close>

subsection \<open>The response writer\<close>

text \<open>The writer as \<open>Upgrade\<close> leaves it when it returns an error.\<close>

definition after_Upgrade :: "failure \<Rightarrow> response" where
  "after_Upgrade f =
     (case f of
        ErrorReplied code text \<Rightarrow> \<lparr>status = Some code, body = [text], hijacked = False\<rparr>
      | ConnHijacked \<Rightarrow> \<lparr>status = None, body = [], hijacked = True\<rparr>)"

text \<open>
  \<open>WriteHeader\<close> sets the status once: a later call is superfluous and changes nothing,
  and nothing can be written on a hijacked connection. \<open>Write\<close> writes the status 200
  first when none was written. \<open>http.Error\<close> writes the status, then the message as a
  line of the body; \<open>http.NotFound\<close> is \<open>http.Error\<close> with status 404 and its fixed text.
\<close>

definition WriteHeader :: "nat \<Rightarrow> response \<Rightarrow> response" where
  "WriteHeader code w =
     (if hijacked w then w
      else (case status w of None \<Rightarrow> w\<lparr>status := Some code\<rparr> | Some c \<Rightarrow> w))"

definition Write :: "string \<Rightarrow> response \<Rightarrow> response" where
  "Write line w =
     (if hijacked w then w
      else (let w1 = WriteHeader 200 w in w1\<lparr>body := body w1 @ [line]\<rparr>))"

definition http_Error :: "string \<Rightarrow> nat \<Rightarrow> response \<Rightarrow> response" where
  "http_Error message code w = Write message (WriteHeader code w)"

definition http_NotFound :: "response \<Rightarrow> response" where
  "http_NotFound w = http_Error ''404 page not found'' 404 w"

subsection \<open>The handler\<close>

text \<open>
  \<open>wsPage\<close> up to its send on \<open>manager.register\<close>: the result of \<open>Upgrade\<close> and the
  string of the generated UUID are inputs. It returns the new client's address, if any.
  On a failed upgrade it calls \<open>http.NotFound\<close> on the writer that \<open>Upgrade\<close> has used.
\<close>

definition wsPage :: "upgrade \<Rightarrow> string \<Rightarrow> world \<Rightarrow> addr option \<times> world" where
  "wsPage up uuid s =
     (case up of
        UpgradeFailed f \<Rightarrow> (None, s\<lparr>replies := replies s @ [http_NotFound (after_Upgrade f)]\<rparr>)
      | Upgraded conn \<Rightarrow>
          (let client = \<lparr>client_id = uuid, client_socket = conn, client_send = make_chan 0\<rparr>
           in (Some (length (heap s)), s\<lparr>heap := heap s @ [client]\<rparr>)))"

text \<open>
  What reaches the Hub: an HTTP request served by \<open>wsPage\<close> (whose send on the register
  channel the Hub then receives), a value on the unregister channel, a value on the
  broadcast channel. Each carries the behaviour of the write pumps during the step.
\<close>

datatype event =
    Handshake upgrade string "addr \<Rightarrow> bool"
  | Unregister addr "addr \<Rightarrow> bool"
  | Broadcast bytes "addr \<Rightarrow> bool"

text \<open>
  One iteration of the \<open>for\<close> loop of \<open>ClientManager.start\<close>: the \<open>select\<close> takes one
  event and runs its case to the end before the next. For a handshake, \<open>wsPage\<close> goes on
  to start the two pumps of the new client once its send on the register channel is
  taken. \<open>run\<close> is the loop over the events in the order of their arrival.
\<close>

fun step :: "marshal \<Rightarrow> event \<Rightarrow> world \<Rightarrow> error + world" where
  "step mar (Handshake up uuid will) s =
     (case wsPage up uuid s of
        (None, s1) \<Rightarrow> Inr s1
      | (Some client, s1) \<Rightarrow>
          (case hub_register mar will client s1 of
             Inl e \<Rightarrow> Inl e
           | Inr s2 \<Rightarrow> Inr (s2\<lparr>goroutines := goroutines s2 @ [ReadPump client, WritePump client]\<rparr>)))"
| "step mar (Unregister conn will) s = hub_unregister mar will conn s"
| "step mar (Broadcast message rdy) s = hub_broadcast rdy message s"

fun run :: "marshal \<Rightarrow> event list \<Rightarrow> world \<Rightarrow> error + world" where
  "run mar [] s = Inr s"
| "run mar (e # es) s = (case step mar e s of Inl x \<Rightarrow> Inl x | Inr s1 \<Rightarrow> run mar es s1)"

text \<open>The state in which \<open>main\<close> starts the Hub: an empty registry, one line printed.\<close>

definition start_world :: world where
  "start_world = \<lparr>heap = [], clients = [], replies = [], goroutines = [],
                  stdout = [''Starting application...'']\<rparr>"


section \<open>The wire form of an envelope\<close>

text \<open>
  The struct tags of \<open>Message\<close> name the three keys and mark each \<open>omitempty\<close>: a field
  holding the empty string is left out of the object. The members come in the order of
  the fields, separated by commas. \<open>lit\<close> is the standard library's encoding of a Go
  string as a JSON string literal; the fixed-shape struct gives \<open>json.Marshal\<close> nothing
  to fail on, so the error is \<open>None\<close>.
\<close>

fun join :: "string \<Rightarrow> string list \<Rightarrow> string" where
  "join sep [] = []"
| "join sep [x] = x"
| "join sep (x # y # zs) = x @ sep @ join sep (y # zs)"

definition json_field :: "(string \<Rightarrow> bytes) \<Rightarrow> string \<Rightarrow> string \<Rightarrow> bytes list" where
  "json_field lit name v = (if v = [] then [] else [CHR 0x22 # name @ CHR 0x22 # CHR '':'' # lit v])"

definition json_Marshal :: "(string \<Rightarrow> bytes) \<Rightarrow> marshal" where
  "json_Marshal lit m =
     (''{'' @ join '','' (json_field lit ''sender'' (Sender m)
                        @ json_field lit ''recipient'' (Recipient m)
                        @ json_field lit ''content'' (Content m)) @ ''}'', None)"

text \<open>The literal of a string in which the encoder finds nothing to escape.\<close>

definition plain_literal :: "string \<Rightarrow> bytes" where
  "plain_literal v = CHR 0x22 # v @ [CHR 0x22]"

definition wire :: marshal where
  "wire = json_Marshal plain_literal"

section \<open>Observations and invariants\<close>


text \<open>The client after the non-blocking attempt of a broadcast, and after a blocking send.\<close>

definition after_try :: "bool \<Rightarrow> bytes \<Rightarrow> Client \<Rightarrow> Client" where
  "after_try rw m c =
     (case try_send rw m (client_send c) of
        Inr (Some ch) \<Rightarrow> c\<lparr>client_send := ch\<rparr>
      | _ \<Rightarrow> c\<lparr>client_send := (client_send c)\<lparr>closed := True\<rparr>\<rparr>)"

definition after_send :: "bool \<Rightarrow> bytes \<Rightarrow> Client \<Rightarrow> Client" where
  "after_send rw m c =
     (case block_send rw m (client_send c) of
        Inr ch \<Rightarrow> c\<lparr>client_send := ch\<rparr>
      | Inl e \<Rightarrow> c)"

text \<open>
  The registry is well formed when its keys are distinct pointers to allocated clients
  whose outbound queues are open.
\<close>

definition well_formed :: "world \<Rightarrow> bool" where
  "well_formed s = (distinct (registry s) \<and>
           (\<forall>c\<in>set (registry s). c < length (heap s) \<and> \<not> is_closed s c))"

definition unbuffered :: "chan \<Rightarrow> bool" where
  "unbuffered ch = (cap ch = 0 \<and> buf ch = [])"

text \<open>
  The invariant of the process: the registry is well formed, an allocated client is
  registered exactly when its queue is open, and every queue is unbuffered and empty.
\<close>

definition invariant :: "world \<Rightarrow> bool" where
  "invariant s = (well_formed s
     \<and> (\<forall>a<length (heap s). (a \<in> set (registry s)) = (\<not> is_closed s a))
     \<and> (\<forall>a<length (heap s). unbuffered (client_send (heap s ! a))))"

text \<open>The number of successful handshakes in a trace.\<close>

fun admissions :: "event list \<Rightarrow> nat" where
  "admissions [] = 0"
| "admissions (Handshake (Upgraded conn) uuid will # es) = Suc (admissions es)"
| "admissions (e # es) = admissions es"

text \<open>
  The registry as the specification describes it, kept from the events alone and without
  looking at the Hub: the number of connections admitted, those live (admitted and not
  removed since), and those removed, in the order of their removal. The n-th connection
  admitted is named n. A successful handshake admits one; an unregister event removes
  its connection if it is live; a broadcast removes the live connections whose enqueue
  fails, which are those whose write pump is not in its receive.
\<close>

record ledger =
  admitted :: nat
  live :: "addr list"
  removed :: "addr list"

fun book :: "ledger \<Rightarrow> event \<Rightarrow> ledger" where
  "book l (Handshake (UpgradeFailed f) uuid will) = l"
| "book l (Handshake (Upgraded conn) uuid will) =
     l\<lparr>admitted := Suc (admitted l), live := live l @ [admitted l]\<rparr>"
| "book l (Unregister a will) =
     (if a \<in> set (live l)
      then l\<lparr>live := removeAll a (live l), removed := removed l @ [a]\<rparr> else l)"
| "book l (Broadcast m rdy) =
     l\<lparr>live := filter rdy (live l), removed := removed l @ filter (\<lambda>c. \<not> rdy c) (live l)\<rparr>"

definition ledger_of :: "event list \<Rightarrow> ledger" where
  "ledger_of evs = foldl book \<lparr>admitted = 0, live = [], removed = []\<rparr> evs"

text \<open>The ledger agrees with a state of the process.\<close>

definition books :: "ledger \<Rightarrow> world \<Rightarrow> bool" where
  "books l s = (live l = registry s \<and> admitted l = length (heap s) \<and> distinct (removed l)
                \<and> set (removed l) = {0..<admitted l} - set (live l))"

text \<open>Two states that differ at most in the HTTP replies written so far.\<close>

definition same_hub :: "world \<Rightarrow> world \<Rightarrow> bool" where
  "same_hub s t = (heap s = heap t \<and> clients s = clients t \<and> goroutines s = goroutines t
                   \<and> stdout s = stdout t)"

fun failed_handshake :: "event \<Rightarrow> bool" where
  "failed_handshake (Handshake (UpgradeFailed f) uuid will) = True"
| "failed_handshake e = False"

section \<open>Example inputs\<close>

text \<open>
  Write pumps that all take what is offered, that are all busy, and that take it except
  one; the states with one and with two admitted clients; the handshakes of three
  clients; a trace with a dropped and a departed client.
\<close>

definition receiving :: "addr \<Rightarrow> bool" where
  "receiving c = True"

definition busy :: "addr \<Rightarrow> bool" where
  "busy c = False"

definition all_but :: "addr \<Rightarrow> addr \<Rightarrow> bool" where
  "all_but x c = (c \<noteq> x)"

definition one_client :: world where
  "one_client =
     \<lparr>heap = [\<lparr>client_id = ''a'', client_socket = 7, client_send = make_chan 0\<rparr>],
      clients = [(0, True)], replies = [],
      goroutines = [ReadPump 0, WritePump 0],
      stdout = [''Starting application...'']\<rparr>"

definition two_clients :: world where
  "two_clients =
     \<lparr>heap = [\<lparr>client_id = ''a'', client_socket = 7, client_send = make_chan 0\<rparr>,
              \<lparr>client_id = ''b'', client_socket = 8, client_send = make_chan 0\<rparr>],
      clients = [(0, True), (1, True)], replies = [],
      goroutines = [ReadPump 0, WritePump 0, ReadPump 1, WritePump 1],
      stdout = [''Starting application...'']\<rparr>"

definition three_joined :: "event list" where
  "three_joined = [Handshake (Upgraded 7) ''a'' receiving, Handshake (Upgraded 8) ''b'' receiving,
                   Handshake (Upgraded 9) ''c'' receiving]"

definition demo_trace :: "event list" where
  "demo_trace = three_joined @ [Broadcast ''hi'' (all_but 1), Unregister 2 receiving,
                                Unregister 2 receiving]"

section \<open>Channel operations\<close>

lemma try_send_cases:
  "\<not> closed ch \<Longrightarrow> (\<exists>ch'. try_send rw m ch = Inr (Some ch')) \<or> try_send rw m ch = Inr None"
  by (simp add: try_send_def)

lemma block_send_Inr:
  "block_send rw m ch = Inr ch' \<Longrightarrow>
     accepted ch' = accepted ch @ [m] \<and> closed ch' = closed ch \<and> \<not> closed ch \<and> cap ch' = cap ch"
  by (auto simp: block_send_def try_send_def accepted_def split: if_splits list.splits)

lemma block_send_Inl:
  "\<not> closed ch \<Longrightarrow> block_send rw m ch = Inl e \<Longrightarrow> e = HubBlocked \<and> \<not> rw"
  by (auto simp: block_send_def try_send_def split: if_splits list.splits)


lemma after_try_accept:
  "try_send rw m (client_send c) \<noteq> Inr None \<Longrightarrow> \<not> closed (client_send c) \<Longrightarrow>
     accepted (client_send (after_try rw m c)) = accepted (client_send c) @ [m]
     \<and> \<not> closed (client_send (after_try rw m c))"
  by (auto simp: after_try_def try_send_def accepted_def split: if_splits)

lemma after_try_full:
  "try_send rw m (client_send c) = Inr None \<Longrightarrow>
     accepted (client_send (after_try rw m c)) = accepted (client_send c)
     \<and> closed (client_send (after_try rw m c))"
  by (simp add: after_try_def accepted_def)

lemma after_try_frame:
  "\<not> closed (client_send c) \<Longrightarrow>
     closed (client_send (after_try rw m c)) = (try_send rw m (client_send c) = Inr None)"
  "unbuffered (client_send c) \<Longrightarrow> unbuffered (client_send (after_try rw m c))"
  by (auto simp: after_try_def try_send_def unbuffered_def split: if_splits)


lemma after_send_frame:
  "closed (client_send (after_send rw m c)) = closed (client_send c)"
  "unbuffered (client_send c) \<Longrightarrow> unbuffered (client_send (after_send rw m c))"
  by (auto simp: after_send_def block_send_def try_send_def unbuffered_def
           split: sum.splits option.splits if_splits list.splits)

section \<open>The heap\<close>

lemma deref_Some [simp]: "a < length (heap s) \<Longrightarrow> deref s a = Some (heap s ! a)"
  by (simp add: deref_def)

lemma set_send_simps [simp]:
  "clients (set_send a ch s) = clients s"
  "replies (set_send a ch s) = replies s"
  "goroutines (set_send a ch s) = goroutines s"
  "stdout (set_send a ch s) = stdout s"
  "length (heap (set_send a ch s)) = length (heap s)"
  "registry (set_send a ch s) = registry s"
  by (simp_all add: set_send_def registry_def)

lemma set_send_nth:
  "b < length (heap s) \<Longrightarrow>
   heap (set_send a ch s) ! b = (if b = a then (heap s ! a)\<lparr>client_send := ch\<rparr> else heap s ! b)"
  by (simp add: set_send_def nth_list_update)

lemma world_eqI:
  fixes s t :: world
  assumes "length (heap s) = length (heap t)"
    and "\<And>a. a < length (heap s) \<Longrightarrow> heap s ! a = heap t ! a"
    and "clients s = clients t" and "replies s = replies t"
    and "goroutines s = goroutines t" and "stdout s = stdout t"
  shows "s = t"
proof -
  have "heap s = heap t" using assms(1,2) by (rule nth_equalityI)
  with assms(3-6) show ?thesis by simp
qed

section \<open>The loops over the registry\<close>

lemma send_loop_Inr:
  assumes "distinct cs"
    and "\<forall>c\<in>set cs. c \<noteq> ig \<longrightarrow> c < length (heap s)"
    and "send_loop will m ig cs s = Inr s'"
  shows "length (heap s') = length (heap s) \<and> clients s' = clients s \<and> replies s' = replies s
       \<and> goroutines s' = goroutines s \<and> stdout s' = stdout s
       \<and> (\<forall>a<length (heap s). heap s' ! a =
            (if a \<in> set cs \<and> a \<noteq> ig then after_send (will a) m (heap s ! a) else heap s ! a))
       \<and> (\<forall>c\<in>set cs. c \<noteq> ig \<longrightarrow> \<not> is_closed s c)"
  using assms
proof (induction cs arbitrary: s)
  case Nil
  then show ?case by simp
next
  case (Cons conn cs)
  show ?case
  proof (cases "conn = ig")
    case True
    with Cons.prems have "send_loop will m ig cs s = Inr s'" by simp
    with Cons.IH [of s] Cons.prems True show ?thesis by auto
  next
    case False
    with Cons.prems have lt: "conn < length (heap s)" by simp
    from Cons.prems False lt obtain ch where
      bs: "block_send (will conn) m (client_send (heap s ! conn)) = Inr ch"
      and rest: "send_loop will m ig cs (set_send conn ch s) = Inr s'"
      by (auto split: sum.splits)
    let ?s1 = "set_send conn ch s"
    have d: "distinct cs" "conn \<notin> set cs" using Cons.prems by auto
    have p: "\<forall>c\<in>set cs. c \<noteq> ig \<longrightarrow> c < length (heap ?s1)" using Cons.prems by simp
    note ih = Cons.IH [OF d(1) p rest]
    have as: "after_send (will conn) m (heap s ! conn) = (heap s ! conn)\<lparr>client_send := ch\<rparr>"
      by (simp add: after_send_def bs)
    have op: "\<not> is_closed s conn" using block_send_Inr [OF bs] by (simp add: is_closed_def)
    have h: "\<forall>a<length (heap s). heap s' ! a =
            (if a \<in> set (conn # cs) \<and> a \<noteq> ig then after_send (will a) m (heap s ! a) else heap s ! a)"
    proof (intro allI impI)
      fix a assume a: "a < length (heap s)"
      with ih have "heap s' ! a =
         (if a \<in> set cs \<and> a \<noteq> ig then after_send (will a) m (heap ?s1 ! a) else heap ?s1 ! a)"
        by simp
      then show "heap s' ! a =
            (if a \<in> set (conn # cs) \<and> a \<noteq> ig then after_send (will a) m (heap s ! a) else heap s ! a)"
        using a d(2) False as by (auto simp: set_send_nth)
    qed
    have cl: "\<forall>c\<in>set cs. c \<noteq> ig \<longrightarrow> \<not> is_closed s c"
    proof (intro ballI impI)
      fix c assume c: "c \<in> set cs" "c \<noteq> ig"
      with ih have "\<not> is_closed ?s1 c" by simp
      moreover have "c \<noteq> conn" using c d(2) by auto
      moreover have "c < length (heap s)" using c Cons.prems by simp
      ultimately show "\<not> is_closed s c" by (simp add: is_closed_def set_send_nth)
    qed
    from ih h cl op False show ?thesis by simp
  qed
qed


lemma send_loop_Inl:
  assumes "\<forall>c\<in>set cs. c \<noteq> ig \<longrightarrow> c < length (heap s) \<and> \<not> is_closed s c"
    and "distinct cs"
    and "send_loop will m ig cs s = Inl e"
  shows "e = HubBlocked"
  using assms
proof (induction cs arbitrary: s)
  case Nil
  then show ?case by simp
next
  case (Cons conn cs)
  show ?case
  proof (cases "conn = ig")
    case True
    with Cons show ?thesis by simp
  next
    case False
    with Cons.prems have lt: "conn < length (heap s)" and op: "\<not> is_closed s conn"
      by simp_all
    show ?thesis
    proof (cases "block_send (will conn) m (client_send (heap s ! conn))")
      case (Inl x)
      with Cons.prems False lt have "e = x" by simp
      with block_send_Inl [OF _ Inl] op show ?thesis by (simp add: is_closed_def)
    next
      case (Inr ch)
      have "\<forall>c\<in>set cs. c \<noteq> ig \<longrightarrow>
            c < length (heap (set_send conn ch s)) \<and> \<not> is_closed (set_send conn ch s) c"
        using Cons.prems by (auto simp: is_closed_def set_send_nth)
      moreover have "send_loop will m ig cs (set_send conn ch s) = Inl e"
        using Cons.prems False lt Inr by simp
      ultimately show ?thesis using Cons.IH [of "set_send conn ch s"] Cons.prems by simp
    qed
  qed
qed

lemma send_loop_needs:
  assumes "send_loop will m ig cs s = Inr s'" and "distinct cs"
    and "\<forall>c\<in>set cs. c \<noteq> ig \<longrightarrow> c < length (heap s)"
  shows "\<forall>c\<in>set cs. c \<noteq> ig \<longrightarrow> (\<exists>ch. block_send (will c) m (client_send (heap s ! c)) = Inr ch)"
  using assms
proof (induction cs arbitrary: s)
  case Nil
  then show ?case by simp
next
  case (Cons conn cs)
  show ?case
  proof (cases "conn = ig")
    case True
    with Cons show ?thesis by simp
  next
    case False
    with Cons.prems have lt: "conn < length (heap s)" by simp
    from Cons.prems False lt obtain ch where
      bs: "block_send (will conn) m (client_send (heap s ! conn)) = Inr ch"
      and rest: "send_loop will m ig cs (set_send conn ch s) = Inr s'"
      by (auto split: sum.splits)
    have d: "distinct cs" "conn \<notin> set cs" using Cons.prems by auto
    have p: "\<forall>c\<in>set cs. c \<noteq> ig \<longrightarrow> c < length (heap (set_send conn ch s))"
      using Cons.prems by simp
    from Cons.IH [OF rest d(1) p] have
      "\<forall>c\<in>set cs. c \<noteq> ig \<longrightarrow>
         (\<exists>ch'. block_send (will c) m (client_send (heap (set_send conn ch s) ! c)) = Inr ch')" .
    moreover have "\<And>c. c \<in> set cs \<Longrightarrow> c \<noteq> ig \<Longrightarrow>
        heap (set_send conn ch s) ! c = heap s ! c"
      using d(2) Cons.prems by (auto simp: set_send_nth)
    ultimately show ?thesis using bs by auto
  qed
qed

lemma send_loop_enough:
  assumes "distinct cs"
    and "\<forall>c\<in>set cs. c \<noteq> ig \<longrightarrow> c < length (heap s)
            \<and> (\<exists>ch. block_send (will c) m (client_send (heap s ! c)) = Inr ch)"
  shows "\<exists>s'. send_loop will m ig cs s = Inr s'"
  using assms
proof (induction cs arbitrary: s)
  case Nil
  then show ?case by simp
next
  case (Cons conn cs)
  show ?case
  proof (cases "conn = ig")
    case True
    with Cons show ?thesis by simp
  next
    case False
    with Cons.prems obtain ch where lt: "conn < length (heap s)"
      and bs: "block_send (will conn) m (client_send (heap s ! conn)) = Inr ch"
      by auto
    have d: "distinct cs" "conn \<notin> set cs" using Cons.prems by auto
    have "\<forall>c\<in>set cs. c \<noteq> ig \<longrightarrow> c < length (heap (set_send conn ch s))
            \<and> (\<exists>ch'. block_send (will c) m (client_send (heap (set_send conn ch s) ! c)) = Inr ch')"
      using Cons.prems d(2) by (auto simp: set_send_nth)
    from Cons.IH [OF d(1) this] obtain s' where
      "send_loop will m ig cs (set_send conn ch s) = Inr s'" by blast
    with False lt bs show ?thesis by simp
  qed
qed

lemma registry_filter:
  "map fst (filter (\<lambda>kv. P (fst kv)) al) = filter P (map fst al)"
  by (induction al) auto

lemma broadcast_loop_spec:
  assumes "distinct cs"
    and "\<forall>c\<in>set cs. c < length (heap s) \<and> \<not> is_closed s c"
  shows "\<exists>s'. broadcast_loop rdy m cs s = Inr s'
       \<and> length (heap s') = length (heap s) \<and> replies s' = replies s
       \<and> goroutines s' = goroutines s \<and> stdout s' = stdout s
       \<and> clients s' = filter (\<lambda>kv. fst kv \<in> set cs \<longrightarrow>
              try_send (rdy (fst kv)) m (client_send (heap s ! fst kv)) \<noteq> Inr None) (clients s)
       \<and> (\<forall>a<length (heap s). heap s' ! a =
            (if a \<in> set cs then after_try (rdy a) m (heap s ! a) else heap s ! a))"
  using assms
proof (induction cs arbitrary: s)
  case Nil
  then show ?case by simp
next
  case (Cons conn cs)
  from Cons.prems have lt: "conn < length (heap s)" and op: "\<not> closed (client_send (heap s ! conn))"
    and d: "distinct cs" "conn \<notin> set cs"
    by (simp_all add: is_closed_def)
  let ?ch = "client_send (heap s ! conn)"
  consider (acc) ch where "try_send (rdy conn) m ?ch = Inr (Some ch)"
    | (full) "try_send (rdy conn) m ?ch = Inr None"
    using try_send_cases [OF op, of "rdy conn" m] by blast
  then show ?case
  proof cases
    case acc
    let ?s1 = "set_send conn ch s"
    have p: "\<forall>c\<in>set cs. c < length (heap ?s1) \<and> \<not> is_closed ?s1 c"
      using Cons.prems d by (auto simp: is_closed_def set_send_nth)
    from Cons.IH [OF d(1) p] obtain s' where
      r: "broadcast_loop rdy m cs ?s1 = Inr s'"
      and f: "length (heap s') = length (heap s)" "replies s' = replies s"
        "goroutines s' = goroutines s" "stdout s' = stdout s"
      and c: "clients s' = filter (\<lambda>kv. fst kv \<in> set cs \<longrightarrow>
              try_send (rdy (fst kv)) m (client_send (heap ?s1 ! fst kv)) \<noteq> Inr None) (clients s)"
      and h: "\<forall>a<length (heap s). heap s' ! a =
            (if a \<in> set cs then after_try (rdy a) m (heap ?s1 ! a) else heap ?s1 ! a)"
      by auto
    have r': "broadcast_loop rdy m (conn # cs) s = Inr s'"
      using lt acc r by simp
    have c': "clients s' = filter (\<lambda>kv. fst kv \<in> set (conn # cs) \<longrightarrow>
              try_send (rdy (fst kv)) m (client_send (heap s ! fst kv)) \<noteq> Inr None) (clients s)"
      unfolding c
    proof (rule filter_cong [OF refl])
      fix kv assume "kv \<in> set (clients s)"
      show "(fst kv \<in> set cs \<longrightarrow>
              try_send (rdy (fst kv)) m (client_send (heap ?s1 ! fst kv)) \<noteq> Inr None)
          = (fst kv \<in> set (conn # cs) \<longrightarrow>
              try_send (rdy (fst kv)) m (client_send (heap s ! fst kv)) \<noteq> Inr None)"
      proof (cases "fst kv = conn")
        case True
        with d(2) acc show ?thesis by simp
      next
        case False
        show ?thesis
        proof (cases "fst kv \<in> set cs")
          case True
          with Cons.prems have "fst kv < length (heap s)" by simp
          with False show ?thesis by (simp add: set_send_nth)
        next
          case False2: False
          with False show ?thesis by simp
        qed
      qed
    qed
    have h': "\<forall>a<length (heap s). heap s' ! a =
            (if a \<in> set (conn # cs) then after_try (rdy a) m (heap s ! a) else heap s ! a)"
      using h d(2) acc by (auto simp: set_send_nth after_try_def)
    from r' f c' h' show ?thesis by blast
  next
    case full
    let ?cl = "?ch\<lparr>closed := True\<rparr>"
    let ?s1 = "set_send conn ?cl s"
    let ?s2 = "?s1\<lparr>clients := AList.delete conn (clients ?s1)\<rparr>"
    have p: "\<forall>c\<in>set cs. c < length (heap ?s2) \<and> \<not> is_closed ?s2 c"
      using Cons.prems d by (auto simp: is_closed_def set_send_nth)
    from Cons.IH [OF d(1) p] obtain s' where
      r: "broadcast_loop rdy m cs ?s2 = Inr s'"
      and f: "length (heap s') = length (heap s)" "replies s' = replies s"
        "goroutines s' = goroutines s" "stdout s' = stdout s"
      and c: "clients s' = filter (\<lambda>kv. fst kv \<in> set cs \<longrightarrow>
              try_send (rdy (fst kv)) m (client_send (heap ?s2 ! fst kv)) \<noteq> Inr None) (clients ?s2)"
      and h: "\<forall>a<length (heap s). heap s' ! a =
            (if a \<in> set cs then after_try (rdy a) m (heap ?s2 ! a) else heap ?s2 ! a)"
      by auto
    have r': "broadcast_loop rdy m (conn # cs) s = Inr s'"
      using lt full op r by (simp add: chan_close_def)
    have c2: "clients ?s2 = filter (\<lambda>kv. fst kv \<noteq> conn) (clients s)"
      by (simp add: AList.delete_eq case_prod_unfold eq_commute [of conn]) 
    have c': "clients s' = filter (\<lambda>kv. fst kv \<in> set (conn # cs) \<longrightarrow>
              try_send (rdy (fst kv)) m (client_send (heap s ! fst kv)) \<noteq> Inr None) (clients s)"
      unfolding c c2 filter_filter
    proof (rule filter_cong [OF refl])
      fix kv assume "kv \<in> set (clients s)"
      show "(fst kv \<noteq> conn \<and> (fst kv \<in> set cs \<longrightarrow>
              try_send (rdy (fst kv)) m (client_send (heap ?s2 ! fst kv)) \<noteq> Inr None))
          = (fst kv \<in> set (conn # cs) \<longrightarrow>
              try_send (rdy (fst kv)) m (client_send (heap s ! fst kv)) \<noteq> Inr None)"
      proof (cases "fst kv = conn")
        case True
        with full show ?thesis by simp
      next
        case False
        show ?thesis
        proof (cases "fst kv \<in> set cs")
          case True
          with Cons.prems have "fst kv < length (heap s)" by simp
          with False show ?thesis by (simp add: set_send_nth)
        next
          case False2: False
          with False show ?thesis by simp
        qed
      qed
    qed
    have h': "\<forall>a<length (heap s). heap s' ! a =
            (if a \<in> set (conn # cs) then after_try (rdy a) m (heap s ! a) else heap s ! a)"
      using h d(2) full by (auto simp: set_send_nth after_try_def)
    from r' f c' h' show ?thesis by blast
  qed
qed

text \<open>
  The order in which \<open>range\<close> yields the keys does not matter: any two enumerations of
  the same keys give the same result.
\<close>

lemma broadcast_loop_order:
  assumes "distinct cs" and "distinct cs'" and "set cs = set cs'"
    and "\<forall>c\<in>set cs. c < length (heap s) \<and> \<not> is_closed s c"
  shows "broadcast_loop rdy m cs s = broadcast_loop rdy m cs' s"
proof -
  from assms(3,4) have p': "\<forall>c\<in>set cs'. c < length (heap s) \<and> \<not> is_closed s c" by simp
  from broadcast_loop_spec [OF assms(1,4), of rdy m] obtain s1 where
    r1: "broadcast_loop rdy m cs s = Inr s1"
    and f1: "length (heap s1) = length (heap s)" "replies s1 = replies s"
        "goroutines s1 = goroutines s" "stdout s1 = stdout s"
    and c1: "clients s1 = filter (\<lambda>kv. fst kv \<in> set cs \<longrightarrow>
              try_send (rdy (fst kv)) m (client_send (heap s ! fst kv)) \<noteq> Inr None) (clients s)"
    and h1: "\<forall>a<length (heap s). heap s1 ! a =
            (if a \<in> set cs then after_try (rdy a) m (heap s ! a) else heap s ! a)"
    by blast
  from broadcast_loop_spec [OF assms(2) p', of rdy m] obtain s2 where
    r2: "broadcast_loop rdy m cs' s = Inr s2"
    and f2: "length (heap s2) = length (heap s)" "replies s2 = replies s"
        "goroutines s2 = goroutines s" "stdout s2 = stdout s"
    and c2: "clients s2 = filter (\<lambda>kv. fst kv \<in> set cs' \<longrightarrow>
              try_send (rdy (fst kv)) m (client_send (heap s ! fst kv)) \<noteq> Inr None) (clients s)"
    and h2: "\<forall>a<length (heap s). heap s2 ! a =
            (if a \<in> set cs' then after_try (rdy a) m (heap s ! a) else heap s ! a)"
    by blast
  have "s1 = s2"
  proof (rule world_eqI)
    fix a assume "a < length (heap s1)"
    with f1 h1 h2 assms(3) show "heap s1 ! a = heap s2 ! a" by simp
  qed (simp_all add: f1 f2 c1 c2 assms(3))
  with r1 r2 show ?thesis by simp
qed

lemma send_loop_order:
  assumes "distinct cs" and "distinct cs'" and "set cs = set cs'"
    and "\<forall>c\<in>set cs. c \<noteq> ig \<longrightarrow> c < length (heap s) \<and> \<not> is_closed s c"
  shows "send_loop will m ig cs s = send_loop will m ig cs' s"
proof -
  have p: "\<forall>c\<in>set cs. c \<noteq> ig \<longrightarrow> c < length (heap s)"
    and p': "\<forall>c\<in>set cs'. c \<noteq> ig \<longrightarrow> c < length (heap s)"
    and q': "\<forall>c\<in>set cs'. c \<noteq> ig \<longrightarrow> c < length (heap s) \<and> \<not> is_closed s c"
    using assms(3,4) by simp_all
  have both: "send_loop will m ig ys s = Inr t"
      if "send_loop will m ig xs s = Inr t" and "distinct xs" and "distinct ys"
        and "set xs = set ys" and "\<forall>c\<in>set xs. c \<noteq> ig \<longrightarrow> c < length (heap s)"
      for xs ys t
  proof -
    have py: "\<forall>c\<in>set ys. c \<noteq> ig \<longrightarrow> c < length (heap s)" using that(4,5) by simp
    from send_loop_needs [OF that(1,2,5)] that(4,5) have
      "\<forall>c\<in>set ys. c \<noteq> ig \<longrightarrow> c < length (heap s)
            \<and> (\<exists>ch. block_send (will c) m (client_send (heap s ! c)) = Inr ch)"
      by simp
    from send_loop_enough [OF that(3) this] obtain u where
      u: "send_loop will m ig ys s = Inr u" by blast
    note a = send_loop_Inr [OF that(2,5,1)] and b = send_loop_Inr [OF that(3) py u]
    have "u = t"
    proof (rule world_eqI)
      fix x assume "x < length (heap u)"
      with a b that(4) show "heap u ! x = heap t ! x" by simp
    qed (simp_all add: a b)
    with u show ?thesis by simp
  qed
  show ?thesis
  proof (cases "send_loop will m ig cs s")
    case (Inr t)
    with both [OF Inr assms(1,2,3) p] show ?thesis by simp
  next
    case (Inl e)
    show ?thesis
    proof (cases "send_loop will m ig cs' s")
      case (Inr t)
      from both [OF Inr assms(2,1) assms(3) [symmetric] p'] Inl show ?thesis by simp
    next
      case e': (Inl e')
      from send_loop_Inl [OF assms(4,1) Inl] send_loop_Inl [OF q' assms(2) e'] Inl e'
      show ?thesis by simp
    qed
  qed
qed

section \<open>The three cases of the Hub loop\<close>

lemma hub_register_Inr:
  assumes "well_formed s" and "hub_register mar will A s = Inr s'"
  shows "clients s' = AList.update A True (clients s) \<and> length (heap s') = length (heap s)
       \<and> replies s' = replies s \<and> goroutines s' = goroutines s \<and> stdout s' = stdout s
       \<and> (\<forall>a<length (heap s). heap s' ! a =
            (if a \<in> set (registry s) \<and> a \<noteq> A
             then after_send (will a) (fst (mar joined_message)) (heap s ! a) else heap s ! a))"
proof -
  let ?s1 = "s\<lparr>clients := AList.update A True (clients s)\<rparr>"
  let ?m = "fst (mar joined_message)"
  have keys: "set (registry ?s1) = insert A (set (registry s))"
    using dom_update [of A True "clients s"] by (simp add: registry_def)
  have d: "distinct (registry ?s1)"
    using assms(1) distinct_update [of "clients s" A True] by (simp add: well_formed_def registry_def)
  have p: "\<forall>c\<in>set (registry ?s1). c \<noteq> A \<longrightarrow> c < length (heap ?s1)"
    using assms(1) keys by (auto simp: well_formed_def)
  have r: "send_loop will ?m A (registry ?s1) ?s1 = Inr s'"
    using assms(2) by (simp add: hub_register_def manager_send_def Let_def)
  from send_loop_Inr [OF d p r] keys show ?thesis by auto
qed

lemma hub_register_Inl:
  assumes "well_formed s" and "hub_register mar will A s = Inl e"
  shows "e = HubBlocked"
proof -
  let ?s1 = "s\<lparr>clients := AList.update A True (clients s)\<rparr>"
  let ?m = "fst (mar joined_message)"
  have keys: "set (registry ?s1) = insert A (set (registry s))"
    using dom_update [of A True "clients s"] by (simp add: registry_def)
  have d: "distinct (registry ?s1)"
    using assms(1) distinct_update [of "clients s" A True] by (simp add: well_formed_def registry_def)
  have p: "\<forall>c\<in>set (registry ?s1). c \<noteq> A \<longrightarrow> c < length (heap ?s1) \<and> \<not> is_closed ?s1 c"
    using assms(1) keys by (auto simp: well_formed_def is_closed_def)
  have r: "send_loop will ?m A (registry ?s1) ?s1 = Inl e"
    using assms(2) by (simp add: hub_register_def manager_send_def Let_def)
  from send_loop_Inl [OF p d r] show ?thesis .
qed

lemma hub_unregister_absent:
  assumes "A \<notin> set (registry s)"
  shows "hub_unregister mar will A s = Inr s"
proof -
  from assms have "map_of (clients s) A = None"
    by (simp add: registry_def map_of_eq_None_iff)
  then show ?thesis by (simp add: hub_unregister_def)
qed

lemma hub_unregister_present:
  assumes "well_formed s" and "A \<in> set (registry s)"
  shows "hub_unregister mar will A s =
           send_loop will (fst (mar left_message)) A (removeAll A (registry s))
             ((set_send A ((client_send (heap s ! A))\<lparr>closed := True\<rparr>) s)
                \<lparr>clients := AList.delete A (clients s)\<rparr>)"
proof -
  from assms have lt: "A < length (heap s)" and op: "\<not> closed (client_send (heap s ! A))"
    by (simp_all add: well_formed_def is_closed_def)
  from assms(2) obtain ok where mo: "map_of (clients s) A = Some ok"
    by (cases "map_of (clients s) A") (auto simp: registry_def map_of_eq_None_iff)
  show ?thesis
    using mo lt op
    by (simp add: hub_unregister_def chan_close_def manager_send_def Let_def registry_def delete_keys)
qed

lemma hub_unregister_Inr:
  assumes "well_formed s" and "A \<in> set (registry s)" and "hub_unregister mar will A s = Inr s'"
  shows "clients s' = AList.delete A (clients s) \<and> length (heap s') = length (heap s)
       \<and> replies s' = replies s \<and> goroutines s' = goroutines s \<and> stdout s' = stdout s
       \<and> (\<forall>a<length (heap s). heap s' ! a =
            (if a = A then (heap s ! A)\<lparr>client_send := (client_send (heap s ! A))\<lparr>closed := True\<rparr>\<rparr>
             else if a \<in> set (registry s)
             then after_send (will a) (fst (mar left_message)) (heap s ! a) else heap s ! a))"
proof -
  let ?m = "fst (mar left_message)"
  let ?s2 = "(set_send A ((client_send (heap s ! A))\<lparr>closed := True\<rparr>) s)
                \<lparr>clients := AList.delete A (clients s)\<rparr>"
  have r: "send_loop will ?m A (removeAll A (registry s)) ?s2 = Inr s'"
    using hub_unregister_present [OF assms(1,2)] assms(3) by simp
  have d: "distinct (removeAll A (registry s))"
    using assms(1) by (simp add: well_formed_def distinct_removeAll)
  have p: "\<forall>c\<in>set (removeAll A (registry s)). c \<noteq> A \<longrightarrow> c < length (heap ?s2)"
    using assms(1) by (auto simp: well_formed_def)
  from send_loop_Inr [OF d p r] show ?thesis
    by (auto simp: set_send_nth)
qed

lemma hub_unregister_Inl:
  assumes "well_formed s" and "hub_unregister mar will A s = Inl e"
  shows "e = HubBlocked"
proof (cases "A \<in> set (registry s)")
  case False
  with assms(2) show ?thesis by (simp add: hub_unregister_absent)
next
  case True
  let ?m = "fst (mar left_message)"
  let ?s2 = "(set_send A ((client_send (heap s ! A))\<lparr>closed := True\<rparr>) s)
                \<lparr>clients := AList.delete A (clients s)\<rparr>"
  have r: "send_loop will ?m A (removeAll A (registry s)) ?s2 = Inl e"
    using hub_unregister_present [OF assms(1) True] assms(2) by simp
  have d: "distinct (removeAll A (registry s))"
    using assms(1) by (simp add: well_formed_def distinct_removeAll)
  have p: "\<forall>c\<in>set (removeAll A (registry s)). c \<noteq> A \<longrightarrow>
             c < length (heap ?s2) \<and> \<not> is_closed ?s2 c"
    using assms(1) by (auto simp: well_formed_def is_closed_def set_send_nth)
  from send_loop_Inl [OF p d r] show ?thesis .
qed


lemma hub_broadcast_spec:
  assumes "well_formed s"
  shows "\<exists>s'. hub_broadcast rdy m s = Inr s'
       \<and> length (heap s') = length (heap s) \<and> replies s' = replies s
       \<and> goroutines s' = goroutines s \<and> stdout s' = stdout s
       \<and> registry s' = filter (\<lambda>k. try_send (rdy k) m (client_send (heap s ! k)) \<noteq> Inr None)
               (registry s)
       \<and> (\<forall>a<length (heap s). heap s' ! a =
            (if a \<in> set (registry s) then after_try (rdy a) m (heap s ! a) else heap s ! a))"
proof -
  from assms have d: "distinct (registry s)"
    and p: "\<forall>c\<in>set (registry s). c < length (heap s) \<and> \<not> is_closed s c"
    by (simp_all add: well_formed_def)
  from broadcast_loop_spec [OF d p, of rdy m] obtain s' where
    r: "broadcast_loop rdy m (registry s) s = Inr s'"
    and f: "length (heap s') = length (heap s)" "replies s' = replies s"
        "goroutines s' = goroutines s" "stdout s' = stdout s"
    and c: "clients s' = filter (\<lambda>kv. fst kv \<in> set (registry s) \<longrightarrow>
              try_send (rdy (fst kv)) m (client_send (heap s ! fst kv)) \<noteq> Inr None) (clients s)"
    and h: "\<forall>a<length (heap s). heap s' ! a =
            (if a \<in> set (registry s) then after_try (rdy a) m (heap s ! a) else heap s ! a)"
    by blast
  have "registry s' = filter (\<lambda>k. k \<in> set (registry s) \<longrightarrow>
              try_send (rdy k) m (client_send (heap s ! k)) \<noteq> Inr None) (registry s)"
    unfolding registry_def c by (rule registry_filter)
  also have "\<dots> = filter (\<lambda>k. try_send (rdy k) m (client_send (heap s ! k)) \<noteq> Inr None)
               (registry s)"
    by (rule filter_cong) simp_all
  finally have reg: "registry s' = filter (\<lambda>k. try_send (rdy k) m (client_send (heap s ! k)) \<noteq> Inr None)
               (registry s)" .
  from r f reg h show ?thesis by (auto simp: hub_broadcast_def)
qed

section \<open>The invariant along a run\<close>

lemma invariantI:
  assumes "distinct (registry s)"
    and "\<And>a. a \<in> set (registry s) \<Longrightarrow> a < length (heap s)"
    and "\<And>a. a < length (heap s) \<Longrightarrow> (a \<in> set (registry s)) = (\<not> is_closed s a)"
    and "\<And>a. a < length (heap s) \<Longrightarrow> unbuffered (client_send (heap s ! a))"
  shows "invariant s"
  using assms by (auto simp: invariant_def well_formed_def)

lemma invariantD:
  assumes "invariant s"
  shows "well_formed s" and "distinct (registry s)"
    and "\<And>a. a \<in> set (registry s) \<Longrightarrow> a < length (heap s)"
    and "\<And>a. a < length (heap s) \<Longrightarrow> (a \<in> set (registry s)) = (\<not> is_closed s a)"
    and "\<And>a. a < length (heap s) \<Longrightarrow> unbuffered (client_send (heap s ! a))"
  using assms by (auto simp: invariant_def well_formed_def)

lemma invariant_frame:
  "heap s' = heap s \<Longrightarrow> clients s' = clients s \<Longrightarrow> invariant s' = invariant s"
  by (simp add: invariant_def well_formed_def registry_def is_closed_def)

lemma wsPage_failed:
  "wsPage (UpgradeFailed f) uuid s =
     (None, s\<lparr>replies := replies s @ [http_NotFound (after_Upgrade f)]\<rparr>)"
  by (simp add: wsPage_def)

lemma wsPage_upgraded:
  "wsPage (Upgraded conn) uuid s =
     (Some (length (heap s)),
      s\<lparr>heap := heap s @ [\<lparr>client_id = uuid, client_socket = conn, client_send = make_chan 0\<rparr>]\<rparr>)"
  by (simp add: wsPage_def)

lemma well_formed_alloc:
  "well_formed s \<Longrightarrow> well_formed (s\<lparr>heap := heap s @ [c]\<rparr>)"
  by (auto simp: well_formed_def registry_def is_closed_def nth_append)

lemma step_admit:
  assumes "invariant s" and "step mar (Handshake (Upgraded conn) uuid will) s = Inr s'"
  shows "invariant s' \<and> length (heap s') = Suc (length (heap s))
       \<and> set (registry s') = insert (length (heap s)) (set (registry s))
       \<and> stdout s' = stdout s"
proof -
  let ?c = "\<lparr>client_id = uuid, client_socket = conn, client_send = make_chan 0\<rparr>"
  let ?s1 = "s\<lparr>heap := heap s @ [?c]\<rparr>"
  let ?A = "length (heap s)"
  let ?m = "fst (mar joined_message)"
  note inv = invariantD [OF assms(1)]
  from assms(2) obtain s2 where
    r: "hub_register mar will ?A ?s1 = Inr s2"
    and s': "s' = s2\<lparr>goroutines := goroutines s2 @ [ReadPump ?A, WritePump ?A]\<rparr>"
    by (auto simp: wsPage_upgraded split: sum.splits)
  have wf1: "well_formed ?s1" using inv(1) by (rule well_formed_alloc)
  from hub_register_Inr [OF wf1 r] have
    c: "clients s2 = AList.update ?A True (clients s)"
    and l: "length (heap s2) = Suc ?A"
    and o: "stdout s2 = stdout s"
    and h: "\<forall>a<Suc ?A. heap s2 ! a =
            (if a \<in> set (registry s) \<and> a \<noteq> ?A
             then after_send (will a) ?m (heap ?s1 ! a) else heap ?s1 ! a)"
    by (simp_all add: registry_def)
  have reg: "set (registry s') = insert ?A (set (registry s))"
    using dom_update [of ?A True "clients s"] by (simp add: s' c registry_def)
  have d: "distinct (registry s')"
    using inv(2) distinct_update [of "clients s" ?A True] by (simp add: s' c registry_def)
  have fresh: "?A \<notin> set (registry s)" using inv(3) by blast
  have hA: "heap s' ! ?A = ?c" using h fresh by (simp add: s')
  have old: "\<And>a. a < ?A \<Longrightarrow> is_closed s' a = is_closed s a
                \<and> (unbuffered (client_send (heap s ! a)) \<longrightarrow> unbuffered (client_send (heap s' ! a)))"
    using h by (simp add: s' is_closed_def nth_append after_send_frame)
  have "invariant s'"
  proof (rule invariantI)
    show "distinct (registry s')" by (rule d)
  next
    fix a assume "a \<in> set (registry s')"
    with reg inv(3) [of a] show "a < length (heap s')" by (auto simp: s' l)
  next
    fix a assume "a < length (heap s')"
    then have "a < ?A \<or> a = ?A" by (auto simp: s' l)
    then show "(a \<in> set (registry s')) = (\<not> is_closed s' a)"
    proof
      assume "a < ?A"
      with old [of a] inv(4) [of a] reg show ?thesis by simp
    next
      assume "a = ?A"
      with hA reg show ?thesis by (simp add: is_closed_def make_chan_def)
    qed
  next
    fix a assume "a < length (heap s')"
    then have "a < ?A \<or> a = ?A" by (auto simp: s' l)
    then show "unbuffered (client_send (heap s' ! a))"
    proof
      assume "a < ?A"
      with old [of a] inv(5) [of a] show ?thesis by simp
    next
      assume "a = ?A"
      with hA show ?thesis by (simp add: unbuffered_def make_chan_def)
    qed
  qed
  with l reg o show ?thesis by (simp add: s')
qed

lemma step_unregister:
  assumes "invariant s" and "step mar (Unregister A will) s = Inr s'"
  shows "invariant s' \<and> length (heap s') = length (heap s)
       \<and> set (registry s') = set (registry s) - {A}
       \<and> stdout s' = stdout s"
proof (cases "A \<in> set (registry s)")
  case False
  with assms show ?thesis by (simp add: hub_unregister_absent)
next
  case True
  let ?m = "fst (mar left_message)"
  note inv = invariantD [OF assms(1)]
  from assms(2) have r: "hub_unregister mar will A s = Inr s'" by simp
  from hub_unregister_Inr [OF inv(1) True r] have
    c: "clients s' = AList.delete A (clients s)"
    and l: "length (heap s') = length (heap s)"
    and o: "stdout s' = stdout s"
    and h: "\<forall>a<length (heap s). heap s' ! a =
            (if a = A then (heap s ! A)\<lparr>client_send := (client_send (heap s ! A))\<lparr>closed := True\<rparr>\<rparr>
             else if a \<in> set (registry s)
             then after_send (will a) ?m (heap s ! a) else heap s ! a)"
    by simp_all
  have reg: "registry s' = removeAll A (registry s)"
    by (simp add: c registry_def delete_keys)
  have old: "\<And>a. a < length (heap s) \<Longrightarrow> a \<noteq> A \<Longrightarrow> is_closed s' a = is_closed s a"
    using h by (simp add: is_closed_def after_send_frame)
  have ub: "\<And>a. a < length (heap s) \<Longrightarrow> unbuffered (client_send (heap s' ! a))"
    using h inv(5) by (auto simp: after_send_frame) (simp add: unbuffered_def)
  have "invariant s'"
  proof (rule invariantI)
    show "distinct (registry s')" using inv(2) by (simp add: reg distinct_removeAll)
  next
    fix a assume "a \<in> set (registry s')"
    with inv(3) [of a] show "a < length (heap s')" by (simp add: reg l)
  next
    fix a assume a: "a < length (heap s')"
    show "(a \<in> set (registry s')) = (\<not> is_closed s' a)"
    proof (cases "a = A")
      case True
      with h a l show ?thesis by (simp add: reg is_closed_def)
    next
      case False
      with old [of a] inv(4) [of a] a l show ?thesis by (simp add: reg)
    qed
  next
    fix a assume "a < length (heap s')"
    with ub l show "unbuffered (client_send (heap s' ! a))" by simp
  qed
  with l reg o show ?thesis by simp
qed

lemma step_broadcast:
  assumes "invariant s" and "step mar (Broadcast m rdy) s = Inr s'"
  shows "invariant s' \<and> length (heap s') = length (heap s)
       \<and> set (registry s') \<subseteq> set (registry s)
       \<and> stdout s' = stdout s"
proof -
  note inv = invariantD [OF assms(1)]
  from hub_broadcast_spec [OF inv(1), of rdy m] assms(2) have
    l: "length (heap s') = length (heap s)"
    and o: "stdout s' = stdout s"
    and reg: "registry s' = filter (\<lambda>k. try_send (rdy k) m (client_send (heap s ! k)) \<noteq> Inr None)
               (registry s)"
    and h: "\<forall>a<length (heap s). heap s' ! a =
            (if a \<in> set (registry s) then after_try (rdy a) m (heap s ! a) else heap s ! a)"
    by auto
  have "invariant s'"
  proof (rule invariantI)
    show "distinct (registry s')" using inv(2) by (simp add: reg)
  next
    fix a assume "a \<in> set (registry s')"
    with inv(3) [of a] show "a < length (heap s')" by (simp add: reg l)
  next
    fix a assume "a < length (heap s')"
    then have a: "a < length (heap s)" by (simp add: l)
    show "(a \<in> set (registry s')) = (\<not> is_closed s' a)"
    proof (cases "a \<in> set (registry s)")
      case True
      with inv(4) [OF a] have "\<not> closed (client_send (heap s ! a))" by (simp add: is_closed_def)
      from after_try_frame(1) [OF this, of "rdy a" m] h a True show ?thesis
        by (simp add: reg is_closed_def)
    next
      case False
      with inv(4) [OF a] h a show ?thesis by (simp add: reg is_closed_def)
    qed
  next
    fix a assume "a < length (heap s')"
    then have a: "a < length (heap s)" by (simp add: l)
    with h inv(5) [OF a] show "unbuffered (client_send (heap s' ! a))"
      by (simp add: after_try_frame)
  qed
  with l reg o show ?thesis by auto
qed

lemma admissions_Cons: "admissions (e # es) = admissions [e] + admissions es"
proof (cases e)
  case (Handshake up uuid will)
  then show ?thesis by (cases up) simp_all
qed simp_all

lemma step_effect:
  assumes "invariant s" and "step mar e s = Inr s'"
  shows "invariant s' \<and> length (heap s') = length (heap s) + admissions [e]
       \<and> set (registry s') \<subseteq> set (registry s) \<union> {length (heap s)..<length (heap s')}
       \<and> {length (heap s)..<length (heap s')} \<subseteq> set (registry s')
       \<and> stdout s' = stdout s"
proof (cases e)
  case (Handshake up uuid will)
  show ?thesis
  proof (cases up)
    case (UpgradeFailed f)
    with Handshake assms(2)
    have s': "s' = s\<lparr>replies := replies s @ [http_NotFound (after_Upgrade f)]\<rparr>"
      by (simp add: wsPage_failed)
    have "invariant s'" using assms(1) invariant_frame [of s' s] by (simp add: s')
    then show ?thesis using Handshake UpgradeFailed by (simp add: s' registry_def)
  next
    case (Upgraded conn)
    with Handshake assms(2) have "step mar (Handshake (Upgraded conn) uuid will) s = Inr s'"
      by simp
    from step_admit [OF assms(1) this] show ?thesis
      using Handshake Upgraded by auto
  qed
next
  case (Unregister A will)
  with assms(2) have "step mar (Unregister A will) s = Inr s'" by simp
  from step_unregister [OF assms(1) this] show ?thesis using Unregister by auto
next
  case (Broadcast m rdy)
  with assms(2) have "step mar (Broadcast m rdy) s = Inr s'" by simp
  from step_broadcast [OF assms(1) this] show ?thesis using Broadcast by auto
qed

lemma step_Inl:
  assumes "invariant s" and "step mar e s = Inl x"
  shows "x = HubBlocked"
proof (cases e)
  case (Handshake up uuid will)
  show ?thesis
  proof (cases up)
    case (UpgradeFailed f)
    with Handshake assms(2) show ?thesis by (simp add: wsPage_failed)
  next
    case (Upgraded conn)
    let ?c = "\<lparr>client_id = uuid, client_socket = conn, client_send = make_chan 0\<rparr>"
    have wf1: "well_formed (s\<lparr>heap := heap s @ [?c]\<rparr>)"
      using invariantD(1) [OF assms(1)] by (rule well_formed_alloc)
    from assms(2) Handshake Upgraded
    have "hub_register mar will (length (heap s)) (s\<lparr>heap := heap s @ [?c]\<rparr>) = Inl x"
      by (auto simp: wsPage_upgraded split: sum.splits)
    from hub_register_Inl [OF wf1 this] show ?thesis .
  qed
next
  case (Unregister A will)
  with assms(2) hub_unregister_Inl [OF invariantD(1) [OF assms(1)], of mar will A x]
  show ?thesis by simp
next
  case (Broadcast m rdy)
  with assms(2) hub_broadcast_spec [OF invariantD(1) [OF assms(1)], of rdy m]
  show ?thesis by auto
qed

lemma invariant_start: "invariant start_world"
  by (simp add: invariant_def well_formed_def start_world_def registry_def)

lemma run_effect:
  assumes "invariant s" and "run mar es s = Inr s'"
  shows "invariant s' \<and> length (heap s') = length (heap s) + admissions es
       \<and> stdout s' = stdout s"
  using assms
proof (induction es arbitrary: s)
  case Nil
  then show ?case by simp
next
  case (Cons e es)
  from Cons.prems(2) obtain s1 where st: "step mar e s = Inr s1" and rn: "run mar es s1 = Inr s'"
    by (auto split: sum.splits)
  from step_effect [OF Cons.prems(1) st] have
    i1: "invariant s1" and l1: "length (heap s1) = length (heap s) + admissions [e]"
    and o1: "stdout s1 = stdout s"
    by blast+
  from Cons.IH [OF i1 rn] have
    i': "invariant s'" and l': "length (heap s') = length (heap s1) + admissions es"
    and o': "stdout s' = stdout s1"
    by blast+
  from i' l1 l' o1 o' admissions_Cons [of e es] show ?case by simp
qed

lemma run_Inl:
  assumes "invariant s" and "run mar es s = Inl x"
  shows "x = HubBlocked"
  using assms
proof (induction es arbitrary: s)
  case Nil
  then show ?case by simp
next
  case (Cons e es)
  show ?case
  proof (cases "step mar e s")
    case (Inl y)
    with Cons.prems(2) have "y = x" by simp
    with step_Inl [OF Cons.prems(1) Inl] show ?thesis by simp
  next
    case (Inr s1)
    with Cons.prems(2) have "run mar es s1 = Inl x" by simp
    moreover from step_effect [OF Cons.prems(1) Inr] have "invariant s1" by simp
    ultimately show ?thesis by (rule Cons.IH [rotated])
  qed
qed

lemma reachable_invariant:
  assumes "run mar evs start_world = Inr s"
  shows "invariant s \<and> well_formed s"
proof -
  from run_effect [OF invariant_start assms] have "invariant s" by blast
  then show ?thesis by (simp add: invariant_def)
qed

text \<open>
  The membership test of the unregister case makes a repeated unregister event harmless.
  It would not protect a client that is registered again after its removal: there the
  next unregister closes the closed queue. No code path does that: \<open>wsPage\<close>, the only
  sender on the register channel, sends each client once, right after allocating it,
  which is why a run is made of handshakes and not of bare register events.
\<close>

lemma one_client_reached:
  "run wire [Handshake (Upgraded 7) ''a'' receiving] start_world = Inr one_client"
  by code_simp

lemma registered_again_closed_twice:
  "(case hub_unregister wire receiving 0 one_client of
      Inl e \<Rightarrow> Inl e
    | Inr s1 \<Rightarrow>
        (case hub_register wire receiving 0 s1 of
           Inl e \<Rightarrow> Inl e
         | Inr s2 \<Rightarrow> hub_unregister wire receiving 0 s2))
   = Inl CloseOfClosedChannel"
  by code_simp

section \<open>The registry against the ledger\<close>

lemma step_admit_registry:
  assumes "invariant s" and "step mar (Handshake (Upgraded conn) uuid will) s = Inr s'"
  shows "registry s' = registry s @ [length (heap s)]"
proof -
  let ?c = "\<lparr>client_id = uuid, client_socket = conn, client_send = make_chan 0\<rparr>"
  let ?s1 = "s\<lparr>heap := heap s @ [?c]\<rparr>"
  let ?A = "length (heap s)"
  note inv = invariantD [OF assms(1)]
  from assms(2) obtain s2 where
    r: "hub_register mar will ?A ?s1 = Inr s2"
    and s': "s' = s2\<lparr>goroutines := goroutines s2 @ [ReadPump ?A, WritePump ?A]\<rparr>"
    by (auto simp: wsPage_upgraded split: sum.splits)
  have wf1: "well_formed ?s1" using inv(1) by (rule well_formed_alloc)
  from hub_register_Inr [OF wf1 r] have c: "clients s2 = AList.update ?A True (clients s)"
    by simp
  have fresh: "?A \<notin> set (map fst (clients s))" using inv(3) [of ?A] by (auto simp: registry_def)
  then show ?thesis by (simp add: s' c registry_def update_keys)
qed

lemma step_unregister_registry:
  assumes "invariant s" and "step mar (Unregister A will) s = Inr s'"
  shows "registry s' = removeAll A (registry s)"
proof (cases "A \<in> set (registry s)")
  case False
  with assms show ?thesis by (simp add: hub_unregister_absent)
next
  case True
  from assms(2) have r: "hub_unregister mar will A s = Inr s'" by simp
  from hub_unregister_Inr [OF invariantD(1) [OF assms(1)] True r]
  have "clients s' = AList.delete A (clients s)" by blast
  then show ?thesis by (simp add: registry_def delete_keys)
qed

lemma step_broadcast_registry:
  assumes "invariant s" and "step mar (Broadcast m rdy) s = Inr s'"
  shows "registry s' = filter rdy (registry s)"
proof -
  note inv = invariantD [OF assms(1)]
  from hub_broadcast_spec [OF inv(1), of rdy m] assms(2) have
    reg: "registry s' = filter (\<lambda>k. try_send (rdy k) m (client_send (heap s ! k)) \<noteq> Inr None)
               (registry s)"
    by auto
  have "filter (\<lambda>k. try_send (rdy k) m (client_send (heap s ! k)) \<noteq> Inr None) (registry s)
          = filter rdy (registry s)"
  proof (rule filter_cong [OF refl])
    fix k assume k: "k \<in> set (registry s)"
    then have lt: "k < length (heap s)" by (rule inv(3))
    from inv(4) [OF lt] k have "\<not> closed (client_send (heap s ! k))" by (simp add: is_closed_def)
    with inv(5) [OF lt]
    show "(try_send (rdy k) m (client_send (heap s ! k)) \<noteq> Inr None) = rdy k"
      by (simp add: try_send_def unbuffered_def)
  qed
  with reg show ?thesis by simp
qed

lemma books_step:
  assumes "invariant s" and "books l s" and "step mar e s = Inr s'"
  shows "books (book l e) s'"
proof -
  note inv = invariantD [OF assms(1)]
  from assms(2) have lv: "live l = registry s" and ad: "admitted l = length (heap s)"
    and dr: "distinct (removed l)"
    and sr: "set (removed l) = {0..<admitted l} - set (live l)"
    by (simp_all add: books_def)
  have sub: "set (live l) \<subseteq> {0..<admitted l}"
    using inv(3) by (auto simp: lv ad)
  have dl: "distinct (live l)" using inv(2) by (simp add: lv)
  from step_effect [OF assms(1,3)] have
    len: "length (heap s') = length (heap s) + admissions [e]" by blast
  show ?thesis
  proof (cases e)
    case (Handshake up uuid will)
    show ?thesis
    proof (cases up)
      case (UpgradeFailed f)
      with Handshake assms(3)
      have "s' = s\<lparr>replies := replies s @ [http_NotFound (after_Upgrade f)]\<rparr>"
        by (simp add: wsPage_failed)
      with Handshake UpgradeFailed assms(2) show ?thesis
        by (simp add: books_def registry_def)
    next
      case (Upgraded conn)
      with Handshake assms(3) have st: "step mar (Handshake (Upgraded conn) uuid will) s = Inr s'"
        by simp
      from step_admit_registry [OF assms(1) st] have reg: "registry s' = registry s @ [length (heap s)]" .
      have "{0..<Suc (admitted l)} = insert (admitted l) {0..<admitted l}" by auto
      then have "set (removed l) = {0..<Suc (admitted l)} - set (live l @ [admitted l])"
        unfolding sr by auto
      with Handshake Upgraded reg len lv ad dr show ?thesis
        by (simp add: books_def)
    qed
  next
    case (Unregister a will)
    with assms(3) have st: "step mar (Unregister a will) s = Inr s'" by simp
    from step_unregister_registry [OF assms(1) st] have reg: "registry s' = removeAll a (registry s)" .
    show ?thesis
    proof (cases "a \<in> set (live l)")
      case False
      then have "removeAll a (registry s) = registry s" by (simp add: lv)
      with False Unregister reg len lv ad dr sr show ?thesis by (simp add: books_def)
    next
      case True
      then have "a \<notin> set (removed l)" using sr by simp
      moreover have "set (removed l @ [a]) = {0..<admitted l} - set (removeAll a (live l))"
      proof -
        have "a \<in> {0..<admitted l}" using True sub by blast
        then have "({0..<admitted l} - set (live l)) \<union> {a}
                     = {0..<admitted l} - (set (live l) - {a})"
          using True by blast
        then show ?thesis by (simp add: sr)
      qed
      ultimately show ?thesis
        using True Unregister reg len lv ad dr by (simp add: books_def)
    qed
  next
    case (Broadcast m rdy)
    with assms(3) have st: "step mar (Broadcast m rdy) s = Inr s'" by simp
    from step_broadcast_registry [OF assms(1) st] have reg: "registry s' = filter rdy (registry s)" .
    have "set (removed l) \<inter> set (live l) = {}" unfolding sr by blast
    then have d: "distinct (removed l @ filter (\<lambda>c. \<not> rdy c) (live l))"
      using dr dl by auto
    have "({0..<admitted l} - set (live l)) \<union> {c \<in> set (live l). \<not> rdy c}
            = {0..<admitted l} - {c \<in> set (live l). rdy c}"
      using sub by blast
    then have "set (removed l @ filter (\<lambda>c. \<not> rdy c) (live l))
            = {0..<admitted l} - set (filter rdy (live l))"
      by (simp add: sr)
    with d Broadcast reg len lv ad show ?thesis by (simp add: books_def)
  qed
qed

lemma books_run:
  assumes "invariant s" and "books l s" and "run mar es s = Inr s'"
  shows "books (foldl book l es) s'"
  using assms
proof (induction es arbitrary: s l)
  case Nil
  then show ?case by simp
next
  case (Cons e es)
  from Cons.prems(3) obtain s1 where st: "step mar e s = Inr s1" and rn: "run mar es s1 = Inr s'"
    by (auto split: sum.splits)
  from step_effect [OF Cons.prems(1) st] have i1: "invariant s1" by blast
  from books_step [OF Cons.prems(1,2) st] have b1: "books (book l e) s1" .
  from Cons.IH [OF i1 b1 rn] show ?case by simp
qed

lemma books_start: "books \<lparr>admitted = 0, live = [], removed = []\<rparr> start_world"
  by (simp add: books_def start_world_def registry_def)

lemma admitted_foldl:
  "admitted (foldl book l es) = admitted l + admissions es"
proof (induction es arbitrary: l)
  case Nil
  then show ?case by simp
next
  case (Cons e es)
  have "admitted (book l e) = admitted l + admissions [e]"
  proof (cases e)
    case (Handshake up uuid will)
    then show ?thesis by (cases up) simp_all
  qed simp_all
  with Cons.IH [of "book l e"] admissions_Cons [of e es] show ?case by simp
qed

section \<open>Failed handshakes\<close>

lemma same_hub_refl [simp]: "same_hub s s"
  by (simp add: same_hub_def)

lemma same_hub_set_send:
  "same_hub s t \<Longrightarrow> same_hub (set_send a ch s) (set_send a ch t)"
  by (simp add: same_hub_def set_send_def)

lemma same_hub_deref: "same_hub s t \<Longrightarrow> deref s a = deref t a"
  by (simp add: same_hub_def deref_def)

lemma send_loop_same:
  "same_hub s t \<Longrightarrow>
     rel_sum (=) same_hub (send_loop will m ig cs s) (send_loop will m ig cs t)"
proof (induction cs arbitrary: s t)
  case Nil
  then show ?case by simp
next
  case (Cons conn cs)
  show ?case
  proof (cases "conn = ig")
    case True
    with Cons show ?thesis by simp
  next
    case False
    show ?thesis
    proof (cases "deref s conn")
      case None
      with False same_hub_deref [OF Cons.prems, of conn] show ?thesis by simp
    next
      case (Some c)
      then have dt: "deref t conn = Some c" using same_hub_deref [OF Cons.prems, of conn] by simp
      show ?thesis
      proof (cases "block_send (will conn) m (client_send c)")
        case (Inl e)
        with False Some dt show ?thesis by simp
      next
        case (Inr ch)
        from Cons.IH [OF same_hub_set_send [OF Cons.prems, of conn ch]]
        show ?thesis using False Some dt Inr by simp
      qed
    qed
  qed
qed

lemma broadcast_loop_same:
  "same_hub s t \<Longrightarrow>
     rel_sum (=) same_hub (broadcast_loop rdy m cs s) (broadcast_loop rdy m cs t)"
proof (induction cs arbitrary: s t)
  case Nil
  then show ?case by simp
next
  case (Cons conn cs)
  show ?case
  proof (cases "deref s conn")
    case None
    with same_hub_deref [OF Cons.prems, of conn] show ?thesis by simp
  next
    case (Some c)
    then have dt: "deref t conn = Some c" using same_hub_deref [OF Cons.prems, of conn] by simp
    show ?thesis
    proof (cases "try_send (rdy conn) m (client_send c)")
      case (Inl e)
      with Some dt show ?thesis by simp
    next
      case (Inr r)
      show ?thesis
      proof (cases r)
        case (Some ch)
        from Cons.IH [OF same_hub_set_send [OF Cons.prems, of conn ch]]
        show ?thesis using \<open>deref s conn = Some c\<close> dt Inr Some by simp
      next
        case None
        show ?thesis
        proof (cases "chan_close (client_send c)")
          case (Inl e)
          with \<open>deref s conn = Some c\<close> dt Inr None show ?thesis by simp
        next
          case cl: (Inr ch)
          have "same_hub ((set_send conn ch s)\<lparr>clients := AList.delete conn (clients (set_send conn ch s))\<rparr>)
                         ((set_send conn ch t)\<lparr>clients := AList.delete conn (clients (set_send conn ch t))\<rparr>)"
            using Cons.prems by (simp add: same_hub_def set_send_def)
          from Cons.IH [OF this]
          show ?thesis using \<open>deref s conn = Some c\<close> dt Inr None cl by (simp add: Let_def)
        qed
      qed
    qed
  qed
qed

lemma step_same:
  assumes "same_hub s t"
  shows "rel_sum (=) same_hub (step mar e s) (step mar e t)"
proof (cases e)
  case (Handshake up uuid will)
  show ?thesis
  proof (cases up)
    case (UpgradeFailed f)
    with Handshake assms show ?thesis by (simp add: wsPage_def same_hub_def)
  next
    case (Upgraded conn)
    let ?c = "\<lparr>client_id = uuid, client_socket = conn, client_send = make_chan 0\<rparr>"
    let ?s1 = "s\<lparr>heap := heap s @ [?c], clients := AList.update (length (heap s)) True (clients s)\<rparr>"
    let ?t1 = "t\<lparr>heap := heap t @ [?c], clients := AList.update (length (heap t)) True (clients t)\<rparr>"
    have l: "length (heap t) = length (heap s)" using assms by (simp add: same_hub_def)
    have "same_hub ?s1 ?t1" using assms by (simp add: same_hub_def)
    from send_loop_same [OF this, of will "fst (mar joined_message)" "length (heap s)" "registry ?s1"]
    have "rel_sum (=) same_hub
            (hub_register mar will (length (heap s)) (s\<lparr>heap := heap s @ [?c]\<rparr>))
            (hub_register mar will (length (heap t)) (t\<lparr>heap := heap t @ [?c]\<rparr>))"
      using assms by (simp add: hub_register_def manager_send_def registry_def same_hub_def)
    then show ?thesis
      using Handshake Upgraded l
      by (cases "hub_register mar will (length (heap s)) (s\<lparr>heap := heap s @ [?c]\<rparr>)";
          cases "hub_register mar will (length (heap t)) (t\<lparr>heap := heap t @ [?c]\<rparr>)")
         (simp_all add: wsPage_def same_hub_def)
  qed
next
  case (Unregister A will)
  show ?thesis
  proof (cases "map_of (clients s) A")
    case None
    with Unregister assms show ?thesis by (simp add: hub_unregister_def same_hub_def)
  next
    case (Some ok)
    then have mt: "map_of (clients t) A = Some ok" using assms by (simp add: same_hub_def)
    show ?thesis
    proof (cases "deref s A")
      case None
      with Some mt Unregister same_hub_deref [OF assms, of A] show ?thesis
        by (simp add: hub_unregister_def)
    next
      case c: (Some c)
      then have dt: "deref t A = Some c" using same_hub_deref [OF assms, of A] by simp
      show ?thesis
      proof (cases "chan_close (client_send c)")
        case (Inl e)
        with Some mt c dt Unregister show ?thesis by (simp add: hub_unregister_def)
      next
        case (Inr ch)
        let ?s2 = "(set_send A ch s)\<lparr>clients := AList.delete A (clients s)\<rparr>"
        let ?t2 = "(set_send A ch t)\<lparr>clients := AList.delete A (clients t)\<rparr>"
        have "same_hub ?s2 ?t2" using assms by (simp add: same_hub_def set_send_def)
        from send_loop_same [OF this, of will "fst (mar left_message)" A "registry ?s2"]
        show ?thesis
          using Some mt c dt Inr Unregister assms
          by (simp add: hub_unregister_def manager_send_def Let_def registry_def same_hub_def)
      qed
    qed
  qed
next
  case (Broadcast m rdy)
  from broadcast_loop_same [OF assms, of rdy m "registry s"] assms
  show ?thesis using Broadcast by (simp add: hub_broadcast_def registry_def same_hub_def)
qed

lemma run_same:
  "same_hub s t \<Longrightarrow> rel_sum (=) same_hub (run mar es s) (run mar es t)"
proof (induction es arbitrary: s t)
  case Nil
  then show ?case by simp
next
  case (Cons e es)
  from step_same [OF Cons.prems, of mar e] show ?case
    by (cases "step mar e s"; cases "step mar e t") (auto intro: Cons.IH)
qed

lemma run_skip_failed:
  "rel_sum (=) same_hub (run mar es s) (run mar (filter (\<lambda>e. \<not> failed_handshake e) es) s)"
proof (induction es arbitrary: s)
  case Nil
  then show ?case by simp
next
  case (Cons e es)
  show ?case
  proof (cases "failed_handshake e")
    case True
    then obtain f uuid will where e: "e = Handshake (UpgradeFailed f) uuid will"
      by (cases e rule: failed_handshake.cases) simp_all
    let ?w = "http_NotFound (after_Upgrade f)"
    have "same_hub (s\<lparr>replies := replies s @ [?w]\<rparr>) s" by (simp add: same_hub_def)
    from run_same [OF this, of mar es] Cons.IH [of s]
    have "rel_sum (=) same_hub (run mar es (s\<lparr>replies := replies s @ [?w]\<rparr>))
            (run mar (filter (\<lambda>e. \<not> failed_handshake e) es) s)"
      by (auto simp: rel_sum.simps same_hub_def)
    with True e show ?thesis by (simp add: wsPage_def)
  next
    case False
    show ?thesis
    proof (cases "step mar e s")
      case (Inl x)
      with False show ?thesis by simp
    next
      case (Inr s1)
      with False Cons.IH [of s1] show ?thesis by simp
    qed
  qed
qed

text \<open>
  A failed upgrade constructs no client, sends nothing to the Hub and starts no pump: the
  step only adds the reply, and failed handshakes can be left out of any sequence of
  events without changing the heap, the registry or the goroutines of the outcome. The
  call of \<open>http.NotFound\<close> never changes the status: the client receives the one that
  \<open>Upgrade\<close> wrote, or nothing at all on a hijacked connection.
\<close>

lemma failed_upgrade_inert:
  "wsPage (UpgradeFailed f) uuid s
     = (None, s\<lparr>replies := replies s @ [http_NotFound (after_Upgrade f)]\<rparr>)
   \<and> step mar (Handshake (UpgradeFailed f) uuid will) s
     = Inr (s\<lparr>replies := replies s @ [http_NotFound (after_Upgrade f)]\<rparr>)
   \<and> rel_sum (=) same_hub (run mar evs s) (run mar (filter (\<lambda>e. \<not> failed_handshake e) evs) s)"
  using run_skip_failed [of mar evs s] by (simp add: wsPage_def)

text \<open>Serializing an envelope, a struct of three strings, never reports an error.\<close>

lemma json_Marshal_succeeds: "snd (json_Marshal lit m) = None"
  by (simp add: json_Marshal_def)

lemma failed_upgrade_status:
  "status (http_NotFound (after_Upgrade f))
     = (case f of ErrorReplied code text \<Rightarrow> Some code | ConnHijacked \<Rightarrow> None)"
  by (cases f)
     (simp_all add: http_NotFound_def http_Error_def Write_def WriteHeader_def after_Upgrade_def
                    Let_def)

lemma read_loop_prefix:
  "read_loop mar p c (map ReadOk ps @ rs) =
     (map (\<lambda>P. ToBroadcast (fst (mar \<lparr>Sender = client_id c, Recipient = [], Content = P\<rparr>))) ps
        @ fst (read_loop mar p c rs), snd (read_loop mar p c rs))"
  by (induction ps) (simp_all add: Let_def)

lemma well_formed_two_clients: "well_formed two_clients"
  by (simp add: well_formed_def two_clients_def registry_def is_closed_def make_chan_def)

lemma demo_registry: "map_sum id registry (run wire demo_trace start_world) = Inr [0]"
  by code_simp

section \<open>The claims\<close>

subsection \<open>C1: fan-out of a broadcast\<close>

text \<open>
  C1. When the Hub processes a broadcast in a state whose registry is well formed, the
  step completes, and it tries the non-blocking enqueue on the queue of every registered
  connection, the sender's among them. A connection whose enqueue fails (the \<open>default\<close>
  branch) has its queue closed and is removed from the registry in that same step, and
  its queue received nothing; every connection whose enqueue succeeds stays registered
  with an open queue that received exactly the message. Nothing else is sent to anyone:
  no queue receives an announcement, and clients outside the registry are untouched.
\<close>

theorem broadcast_fanout:
  assumes "well_formed s"
  shows "\<exists>s'. hub_broadcast rdy m s = Inr s'
     \<and> (\<forall>c\<in>set (registry s).
          if try_send (rdy c) m (client_send (heap s ! c)) = Inr None
          then is_closed s' c \<and> c \<notin> set (registry s') \<and> outbox s' c = outbox s c
          else \<not> is_closed s' c \<and> c \<in> set (registry s') \<and> outbox s' c = outbox s c @ [m])
     \<and> (\<forall>a<length (heap s). a \<notin> set (registry s) \<longrightarrow> heap s' ! a = heap s ! a)
     \<and> set (registry s') \<subseteq> set (registry s) \<and> length (heap s') = length (heap s)"
proof -
  from assms have p: "\<forall>c\<in>set (registry s). c < length (heap s) \<and> \<not> is_closed s c"
    by (simp add: well_formed_def)
  from hub_broadcast_spec [OF assms, of rdy m] obtain s' where
    r: "hub_broadcast rdy m s = Inr s'"
    and l: "length (heap s') = length (heap s)"
    and reg: "registry s' = filter (\<lambda>k. try_send (rdy k) m (client_send (heap s ! k)) \<noteq> Inr None)
               (registry s)"
    and h: "\<forall>a<length (heap s). heap s' ! a =
            (if a \<in> set (registry s) then after_try (rdy a) m (heap s ! a) else heap s ! a)"
    by blast
  have each: "\<forall>c\<in>set (registry s).
          if try_send (rdy c) m (client_send (heap s ! c)) = Inr None
          then is_closed s' c \<and> c \<notin> set (registry s') \<and> outbox s' c = outbox s c
          else \<not> is_closed s' c \<and> c \<in> set (registry s') \<and> outbox s' c = outbox s c @ [m]"
  proof
    fix c assume cin: "c \<in> set (registry s)"
    with p have lt: "c < length (heap s)" and op: "\<not> closed (client_send (heap s ! c))"
      by (simp_all add: is_closed_def)
    from h lt cin have hc: "heap s' ! c = after_try (rdy c) m (heap s ! c)" by simp
    show "if try_send (rdy c) m (client_send (heap s ! c)) = Inr None
          then is_closed s' c \<and> c \<notin> set (registry s') \<and> outbox s' c = outbox s c
          else \<not> is_closed s' c \<and> c \<in> set (registry s') \<and> outbox s' c = outbox s c @ [m]"
    proof (cases "try_send (rdy c) m (client_send (heap s ! c)) = Inr None")
      case True
      with after_try_full [OF True] hc reg show ?thesis
        by (simp add: is_closed_def outbox_def)
    next
      case False
      with after_try_accept [OF False op] hc reg cin show ?thesis
        by (simp add: is_closed_def outbox_def)
    qed
  qed
  from r each h l reg show ?thesis by auto
qed

theorem broadcast_fanout_witness:
  "well_formed two_clients \<and> (\<exists>s'. hub_broadcast (all_but 1) ''hi'' two_clients = Inr s'
      \<and> outbox s' 0 = [''hi''] \<and> outbox s' 1 = [] \<and> is_closed s' 1
      \<and> 1 \<notin> set (registry s') \<and> 0 \<in> set (registry s'))"
proof -
  from broadcast_fanout [OF well_formed_two_clients, of "all_but 1" "''hi''"]
    well_formed_two_clients
  show ?thesis
    by (auto simp: two_clients_def registry_def try_send_def make_chan_def outbox_def
                   accepted_def all_but_def)
qed

subsection \<open>C2: registration and the "joined" announcement\<close>



subsection \<open>C3: unregistration, guarded by membership\<close>



subsection \<open>C4: the registry along a run\<close>

text \<open>
  C4. In every state reached from the start of the process by a sequence of handshakes,
  unregister events and broadcasts, the registry is the list of live connections of the
  ledger kept from those events alone. So a connection is in the registry if and only if
  it has been admitted and has not been removed since, by an unregister event or by the
  drop of a broadcast; no connection is removed twice; and the size of the registry is
  the number of connections admitted, which is the number of successful handshakes,
  minus the number removed.
\<close>

theorem registry_accounting:
  assumes "run mar evs start_world = Inr s"
  shows "registry s = live (ledger_of evs)
       \<and> (\<forall>a. (a \<in> set (registry s)) =
               (a < admitted (ledger_of evs) \<and> a \<notin> set (removed (ledger_of evs))))
       \<and> distinct (removed (ledger_of evs))
       \<and> length (registry s) = admitted (ledger_of evs) - length (removed (ledger_of evs))
       \<and> admitted (ledger_of evs) = admissions evs"
proof -
  let ?l = "ledger_of evs"
  from books_run [OF invariant_start books_start assms] have b: "books ?l s"
    by (simp add: ledger_of_def)
  then have lv: "live ?l = registry s" and ad: "admitted ?l = length (heap s)"
    and dr: "distinct (removed ?l)"
    and sr: "set (removed ?l) = {0..<admitted ?l} - set (live ?l)"
    by (simp_all add: books_def)
  from run_effect [OF invariant_start assms] have i: "invariant s" by blast
  have d: "distinct (registry s)" using invariantD(2) [OF i] .
  define U where "U = {0..<admitted ?l}"
  have inU: "\<And>a. (a \<in> U) = (a < admitted ?l)" by (simp add: U_def)
  have sub: "set (registry s) \<subseteq> U"
  proof
    fix a assume "a \<in> set (registry s)"
    from invariantD(3) [OF i this] show "a \<in> U" by (simp add: inU ad)
  qed
  have srU: "set (removed ?l) = U - set (registry s)" using sr by (simp add: U_def lv)
  have regU: "set (registry s) = U - set (removed ?l)" using sub unfolding srU by blast
  have mem: "\<forall>a. (a \<in> set (registry s)) = (a < admitted ?l \<and> a \<notin> set (removed ?l))"
    unfolding regU by (simp add: inU)
  have "length (registry s) = card (set (registry s))"
    using d by (simp add: distinct_card)
  also have "\<dots> = card (U - set (removed ?l))" using regU by simp
  also have "\<dots> = card U - card (set (removed ?l))"
  proof (rule card_Diff_subset)
    show "finite (set (removed ?l))" by simp
    show "set (removed ?l) \<subseteq> U" unfolding srU by blast
  qed
  also have "\<dots> = admitted ?l - length (removed ?l)"
    using dr by (simp add: distinct_card U_def)
  finally have len: "length (registry s) = admitted ?l - length (removed ?l)" .
  have "admitted ?l = admissions evs"
    using admitted_foldl [of "\<lparr>admitted = 0, live = [], removed = []\<rparr>" evs]
    by (simp add: ledger_of_def)
  with lv mem dr len show ?thesis by simp
qed

theorem registry_accounting_witness:
  "(\<exists>s. run wire demo_trace start_world = Inr s \<and> registry s = [0]
        \<and> length (registry s)
            = admitted (ledger_of demo_trace) - length (removed (ledger_of demo_trace)))
   \<and> admitted (ledger_of demo_trace) = 3 \<and> removed (ledger_of demo_trace) = [1, 2]
   \<and> live (ledger_of demo_trace) = [0]"
proof -
  from demo_registry obtain s where r: "run wire demo_trace start_world = Inr s"
    and g: "registry s = [0]"
    by (cases "run wire demo_trace start_world") auto
  have a: "admitted (ledger_of demo_trace) = 3" by code_simp
  have m: "removed (ledger_of demo_trace) = [1, 2]" by code_simp
  have v: "live (ledger_of demo_trace) = [0]" by code_simp
  from registry_accounting [OF r] have
    "length (registry s)
       = admitted (ledger_of demo_trace) - length (removed (ledger_of demo_trace))"
    by blast
  with r g a m v show ?thesis by blast
qed

subsection \<open>C5: the read pump\<close>

text \<open>
  C5. For every iteration of the read pump: after any number of successful reads with
  payloads \<open>ps\<close> the pump has sent on the broadcast channel, for each payload P in turn,
  the serialization of the envelope with sender the identity of this connection, content
  P and empty recipient, and it is still in its loop; when the next read fails it sends
  this connection on the unregister channel, closes the socket and leaves the loop
  without reading further. In the wire form of such an envelope the recipient is left
  out: the object has the members "sender" and "content" only.
\<close>

theorem read_pump_iterations:
  "read_loop mar p c (map ReadOk ps @ ReadErr # rest) =
     (map (\<lambda>P. ToBroadcast (fst (mar \<lparr>Sender = client_id c, Recipient = [], Content = P\<rparr>))) ps
        @ [ToUnregister p, SocketClose], True)
   \<and> read_loop mar p c (map ReadOk ps) =
     (map (\<lambda>P. ToBroadcast (fst (mar \<lparr>Sender = client_id c, Recipient = [], Content = P\<rparr>))) ps,
      False)
   \<and> fst (json_Marshal lit \<lparr>Sender = client_id c, Recipient = [], Content = P\<rparr>) =
       ''{'' @ join '','' (json_field lit ''sender'' (client_id c) @ json_field lit ''content'' P)
         @ ''}''"
  using read_loop_prefix [of mar p c ps "ReadErr # rest"] read_loop_prefix [of mar p c ps "[]"]
  by (simp add: json_Marshal_def json_field_def)

theorem read_pump_iterations_witness:
  "read_loop wire 0 \<lparr>client_id = ''a'', client_socket = 7, client_send = make_chan 0\<rparr>
      [ReadOk ''hi'', ReadErr, ReadOk ''x'']
    = ([ToBroadcast (fst (wire \<lparr>Sender = ''a'', Recipient = [], Content = ''hi''\<rparr>)),
        ToUnregister 0, SocketClose], True)"
  using read_pump_iterations [of wire 0
      "\<lparr>client_id = ''a'', client_socket = 7, client_send = make_chan 0\<rparr>" "[''hi'']"
      "[ReadOk ''x'']" plain_literal "''hi''"]
  by simp

subsection \<open>C6: no queue is closed twice\<close>

text \<open>
  C6. Across every sequence of handshakes, unregister events and broadcasts processed
  from the start of the process, no outbound queue is closed twice: a second \<open>close\<close> of
  a channel is the panic "close of closed channel", and no run ends in it, however often
  the read pumps send the same connection on the unregister channel and whatever the
  broadcasts drop. Nor does any run send on a closed queue.
\<close>

theorem queue_closed_once:
  "run mar evs start_world \<noteq> Inl CloseOfClosedChannel
   \<and> run mar evs start_world \<noteq> Inl SendOnClosedChannel"
  using run_Inl [OF invariant_start, of mar evs] by auto

theorem queue_closed_once_witness:
  "run wire demo_trace start_world \<noteq> Inl CloseOfClosedChannel
   \<and> run wire demo_trace start_world \<noteq> Inl SendOnClosedChannel"
  using queue_closed_once [of wire demo_trace] by simp

subsection \<open>C8: the "left" announcement\<close>




subsection \<open>C9: the capacity of the outbound queue\<close>

text \<open>
  C9, as stated, fails. The queue of a client just admitted has capacity 0, and although
  nothing at all is pending on it, a broadcast that finds the write pump busy fails to
  enqueue: the client is dropped and its queue closed.
\<close>

theorem unbuffered_queue_counterexample:
  "run wire [Handshake (Upgraded 7) ''a'' receiving, Broadcast ''m'' busy] start_world
  = Inr \<lparr>heap = [\<lparr>client_id = ''a'', client_socket = 7,
                  client_send = \<lparr>cap = 0, buf = [], taken = [], closed = True\<rparr>\<rparr>],
      clients = [], replies = [],
      goroutines = [ReadPump 0, WritePump 0],
      stdout = [''Starting application...'']\<rparr>"
  by code_simp

text \<open>
  C9, amended. Every connection is constructed at admission with an unbuffered outbound
  queue (capacity 0), and in every state the process reaches each queue still has
  capacity 0 and holds no pending message; a non-blocking enqueue on an open queue
  succeeds exactly when the consumer is parked in its receive at that moment.
\<close>

theorem outbound_queue_unbuffered:
  "client_send (heap (snd (wsPage (Upgraded conn) uuid s)) ! length (heap s)) = make_chan 0
   \<and> cap (make_chan 0) = 0
   \<and> (run mar evs start_world = Inr t \<and> a < length (heap t) \<longrightarrow>
        cap (client_send (heap t ! a)) = 0 \<and> buf (client_send (heap t ! a)) = []
        \<and> (\<not> is_closed t a \<longrightarrow>
             (try_send rw m (client_send (heap t ! a)) = Inr None) = (\<not> rw)))"
proof -
  have "cap (client_send (heap t ! a)) = 0 \<and> buf (client_send (heap t ! a)) = []
        \<and> (\<not> is_closed t a \<longrightarrow>
             (try_send rw m (client_send (heap t ! a)) = Inr None) = (\<not> rw))"
    if "run mar evs start_world = Inr t" and "a < length (heap t)"
  proof -
    from run_effect [OF invariant_start that(1)] have "invariant t" by blast
    from invariantD(5) [OF this that(2)] show ?thesis
      by (simp add: unbuffered_def try_send_def is_closed_def)
  qed
  then show ?thesis by (simp add: wsPage_def make_chan_def)
qed

theorem outbound_queue_unbuffered_witness:
  "(\<exists>t. run wire three_joined start_world = Inr t \<and> 1 < length (heap t)
       \<and> cap (client_send (heap t ! 1)) = 0
       \<and> try_send False ''m'' (client_send (heap t ! 1)) = Inr None)"
proof -
  have "map_sum id (\<lambda>t. (length (heap t), is_closed t 1)) (run wire three_joined start_world)
          = Inr (3, False)"
    by code_simp
  then obtain t where r: "run wire three_joined start_world = Inr t"
    and l: "1 < length (heap t)" and c: "\<not> is_closed t 1"
    by (cases "run wire three_joined start_world") auto
  from outbound_queue_unbuffered [of 0 "''''" start_world wire three_joined t 1 False "''m''"] r l c
  show ?thesis by simp
qed

subsection \<open>C10: a failed upgrade\<close>

text \<open>
  C10. If the websocket upgrade of a request fails, the handler is to answer with 404
  Not Found and return without constructing a client, without sending anything on the
  register channel and without starting a pump. Here a request without the upgrade
  headers arrives while one client is registered: \<open>Upgrade\<close> has answered 400 Bad Request
  before \<open>http.NotFound\<close> runs, so the status the client receives stays 400 and only the
  line of the 404 text is added to the body. The heap, the registry and the goroutines
  are those of before.
\<close>

theorem failed_upgrade_reply:
  "step wire (Handshake (UpgradeFailed (ErrorReplied 400 ''Bad Request'')) ''u'' receiving)
      one_client
   = Inr (one_client\<lparr>replies :=
            [\<lparr>status = Some 400, body = [''Bad Request'', ''404 page not found''],
              hijacked = False\<rparr>]\<rparr>)"
  by code_simp

end
